theory Spec2Isabelle
  imports Main
begin

section \<open>Values, errors and classes\<close>

text \<open>
  The Python values that flow through \<^verbatim>\<open>pyresto/core.py\<close>: parsed JSON (null, booleans,
  integers, strings, arrays, objects), tuples of key values, references to model
  instances (\<open>PObj\<close>, an address into the instance heap) and opaque foreign objects such as
  authentication callables (\<open>POpaque\<close>). A JSON object is an association list; the first
  binding of a key is the one a lookup sees.
\<close>

type_synonym addr = nat
type_synonym cname = string

datatype pyval =
    PNone
  | PBool bool
  | PInt int
  | PStr string
  | PList "pyval list"
  | PTuple "pyval list"
  | PDict "(string \<times> pyval) list"
  | PObj addr
  | POpaque nat

text \<open>Truth value testing, as \<^verbatim>\<open>if x:\<close>, \<^verbatim>\<open>not x\<close> and \<^verbatim>\<open>x or y\<close> apply it. A model instance
  defines neither \<^verbatim>\<open>__nonzero__\<close> nor \<^verbatim>\<open>__len__\<close>, so it is always true.\<close>

fun truthy :: "pyval \<Rightarrow> bool" where
  "truthy PNone = False"
| "truthy (PBool b) = b"
| "truthy (PInt i) = (i \<noteq> 0)"
| "truthy (PStr s) = (s \<noteq> [])"
| "truthy (PList xs) = (xs \<noteq> [])"
| "truthy (PTuple xs) = (xs \<noteq> [])"
| "truthy (PDict kvs) = (kvs \<noteq> [])"
| "truthy (PObj a) = True"
| "truthy (POpaque n) = True"

definition py_or :: "pyval \<Rightarrow> pyval \<Rightarrow> pyval" where
  "py_or a b = (if truthy a then a else b)"

text \<open>The exceptions the modelled code raises. \<open>RecursionError\<close> is Python 2's
  \<^verbatim>\<open>RuntimeError: maximum recursion depth exceeded\<close>; \<open>InvalidRelationData\<close> is the
  \<^verbatim>\<open>TypeError("Invalid type passed to Many.")\<close> of \<^verbatim>\<open>Many._with_owner\<close>; \<open>ServerResponseError\<close>
  is \<^verbatim>\<open>PyrestoServerResponseException\<close>. \<open>BadReference\<close> has no Python counterpart: it is
  the result of following an address that denotes no object, which a Python reference
  never does. \<open>Unmodelled\<close> marks a step whose outcome in Python the model does not
  follow; it is named where it arises.\<close>

datatype error =
    AttributeError
  | KeyError
  | IndexError
  | TypeError
  | ValueError
  | AssertionError
  | RecursionError
  | InvalidRelationData
  | ServerResponseError
  | BadReference
  | Unmodelled

text \<open>
  A model class, as \<^verbatim>\<open>ModelBase.__new__\<close> leaves it: \<open>c_mro\<close> lists the class itself and
  its ancestors below \<^verbatim>\<open>Model\<close> (what \<^verbatim>\<open>isinstance\<close> consults), \<open>c_path\<close> is \<^verbatim>\<open>_path\<close>,
  \<open>c_pk\<close> is \<^verbatim>\<open>_pk\<close> normalised to a tuple, \<open>c_auth\<close> is the class-level \<^verbatim>\<open>_auth\<close> as
  attribute lookup on the class finds it, \<open>c_relations\<close> are the names of the class's
  own dictionary bound to a \<^verbatim>\<open>Many\<close> or \<^verbatim>\<open>Foreign\<close> descriptor (those for which
  \<^verbatim>\<open>issubclass(getattr(cls, item), Model)\<close> holds). Key field names are distinct.
\<close>

record pyclass =
  c_mro :: "cname list"
  c_path :: string
  c_pk :: "string list"
  c_auth :: pyval
  c_relations :: "string list"

text \<open>
  A model instance. \<open>attrs\<close> is the data part of \<^verbatim>\<open>__dict__\<close>; the bookkeeping slots of
  \<^verbatim>\<open>__dict__\<close> are fields of their own: \<open>fetched\<close> is \<^verbatim>\<open>_fetched\<close>, \<open>changed\<close> the address
  of the set object bound to \<^verbatim>\<open>_changed\<close>, \<open>i_auth\<close> the instance-level \<^verbatim>\<open>_auth\<close> when one
  was assigned, \<open>owner\<close> is \<^verbatim>\<open>_pyresto_owner\<close>, \<open>pk_cache\<close> is \<^verbatim>\<open>_Model__pk_vals\<close> and
  \<open>fp_cache\<close> is \<^verbatim>\<open>_Model__footprint\<close> without its \<^verbatim>\<open>self\<close> entry (\<open>None\<close> where the instance
  has no entry and the class default applies). Field names supplied by constructors
  and by servers are data names: a name of a bookkeeping slot, a property or a method
  among them is outside the model.
\<close>

record model_inst =
  i_cls :: cname
  attrs :: "string \<rightharpoonup> pyval"
  fetched :: bool
  changed :: addr
  i_auth :: "pyval option"
  owner :: "addr option"
  pk_cache :: "pyval list option"
  fp_cache :: "(string \<times> pyval) list option"

section \<open>Authentication precedence\<close>

text \<open>
  \<^verbatim>\<open>instance._auth\<close>: the instance's own entry, else the attribute of its class.
\<close>

definition instance_auth :: "(cname \<Rightarrow> pyclass) \<Rightarrow> model_inst \<Rightarrow> pyval" where
  "instance_auth ct i = (case i_auth i of Some v \<Rightarrow> v | None \<Rightarrow> c_auth (ct (i_cls i)))"

text \<open>
  \<^verbatim>\<open>normalize_auth\<close>, the decorator of \<^verbatim>\<open>update_with_patch\<close>, \<^verbatim>\<open>update_with_put\<close> and
  \<^verbatim>\<open>delete\<close>. The argument is the call's \<^verbatim>\<open>auth\<close> keyword (\<open>None\<close> when the call has none);
  the result is the \<^verbatim>\<open>auth\<close> the decorated method receives.
  \<^verbatim>\<open>
    auth = kwargs.get('auth')
    if auth is None:
        auth = cls._auth or instance._auth
    kwargs['auth'] = auth
  \<close>
\<close>

definition normalize_auth :: "(cname \<Rightarrow> pyclass) \<Rightarrow> cname \<Rightarrow> model_inst \<Rightarrow> pyval option \<Rightarrow> pyval" where
  "normalize_auth ct cls i kw =
     (let auth = (case kw of None \<Rightarrow> PNone | Some v \<Rightarrow> v)
      in if auth = PNone then py_or (c_auth (ct cls)) (instance_auth ct i) else auth)"

section \<open>The state: heaps and the request log\<close>

text \<open>
  One invocation of \<^verbatim>\<open>Model._rest_call\<close>: the class it is called on, the method, the
  URL, the \<^verbatim>\<open>auth\<close> keyword, the payload handed to the serializer (if any) and the
  \<^verbatim>\<open>fetch_all\<close> flag.
\<close>

datatype request =
  Request (r_cls: cname) (r_method: string) (r_url: pyval) (r_auth: pyval)
    (r_data: "(string \<rightharpoonup> pyval) option") (r_fetch_all: bool)

text \<open>
  The heaps. An address is an index: \<open>insts\<close> holds the model instances, \<open>sets\<close> the
  mutable set objects (the \<^verbatim>\<open>_changed\<close> sets and the sets callers pass in). Objects are
  allocated at the end and never freed, so an address below the length denotes an
  object and the length is fresh. \<open>log\<close> lists the invocations of \<^verbatim>\<open>_rest_call\<close>, oldest
  first.
\<close>

record mstate =
  insts :: "model_inst list"
  sets :: "string set list"
  log :: "request list"

text \<open>
  The environment of a run. \<open>classes\<close> is the class table. \<open>server\<close> stands for
  \<^verbatim>\<open>Model._rest_call\<close> together with the transport, parser and continuation hook behind
  it: from the invocations so far and the present one it gives what the call raises or
  the pair \<^verbatim>\<open>(data, continuation_url)\<close> it returns. \<open>format\<close> is \<^verbatim>\<open>str.format\<close> applied to a
  path template and the keyword arguments of a footprint.
\<close>

record env =
  classes :: "cname \<Rightarrow> pyclass"
  server :: "request list \<Rightarrow> request \<Rightarrow> error + (pyval \<times> pyval)"
  format :: "string \<Rightarrow> (string \<times> pyval) list \<Rightarrow> error + pyval"

type_synonym 'a res = "(error + 'a) \<times> mstate"

definition ret :: "'a \<Rightarrow> mstate \<Rightarrow> 'a res" where
  "ret x s = (Inr x, s)"

definition raise :: "error \<Rightarrow> mstate \<Rightarrow> 'a res" where
  "raise e s = (Inl e, s)"

text \<open>Sequencing: an exception of the first computation ends the whole.\<close>

definition thn :: "(mstate \<Rightarrow> 'a res) \<Rightarrow> ('a \<Rightarrow> mstate \<Rightarrow> 'b res) \<Rightarrow> mstate \<Rightarrow> 'b res" where
  "thn m f s = (case m s of (Inl e, s') \<Rightarrow> (Inl e, s') | (Inr x, s') \<Rightarrow> f x s')"

definition get_inst :: "addr \<Rightarrow> mstate \<Rightarrow> model_inst res" where
  "get_inst a s = (if a < length (insts s) then (Inr (insts s ! a), s) else (Inl BadReference, s))"

definition upd_inst :: "addr \<Rightarrow> (model_inst \<Rightarrow> model_inst) \<Rightarrow> mstate \<Rightarrow> mstate" where
  "upd_inst a f s = s\<lparr>insts := (insts s)[a := f (insts s ! a)]\<rparr>"

definition rest_call :: "env \<Rightarrow> request \<Rightarrow> mstate \<Rightarrow> (pyval \<times> pyval) res" where
  "rest_call E rq s = (server E (log s) rq, s\<lparr>log := log s @ [rq]\<rparr>)"

section \<open>Construction and attribute writes\<close>

text \<open>
  The loop shared by \<^verbatim>\<open>Model.__init__\<close> and \<^verbatim>\<open>Model.__fetch\<close>: every relation name of the
  class that is a key of the incoming data is moved to the slot \<^verbatim>\<open>'__' + item\<close>.
  \<^verbatim>\<open>
    overlaps = set(cls.__dict__) & set(data)
    for item in overlaps:
        if issubclass(getattr(cls, item), Model):
            self.__dict__['__' + item] = self.__dict__.pop(item)
  \<close>
\<close>

fun reroute :: "string list \<Rightarrow> string list \<Rightarrow> (string \<rightharpoonup> pyval) \<Rightarrow> (string \<rightharpoonup> pyval)" where
  "reroute [] ks d = d"
| "reroute (r # rs) ks d =
     reroute rs ks (if r \<in> set ks then (d(''__'' @ r := d r))(r := None) else d)"

text \<open>
  \<^verbatim>\<open>Model.__init__(**kwargs)\<close> on a new object: the instance and its empty \<^verbatim>\<open>_changed\<close> set
  are allocated, every other slot keeps the class default.
\<close>

definition new_instance :: "env \<Rightarrow> cname \<Rightarrow> (string \<times> pyval) list \<Rightarrow> mstate \<Rightarrow> addr \<times> mstate" where
  "new_instance E cls kvs s =
     (length (insts s),
      s\<lparr>insts := insts s @
           [\<lparr>i_cls = cls,
             attrs = reroute (c_relations (classes E cls)) (map fst kvs) (map_of kvs),
             fetched = False, changed = length (sets s), i_auth = None, owner = None,
             pk_cache = None, fp_cache = None\<rparr>],
         sets := sets s @ [{}]\<rparr>)"

text \<open>
  \<^verbatim>\<open>Model.__setattr__\<close> for a data name.
  \<^verbatim>\<open>
    if not key.startswith('_'):
        self._changed.add(key)
    super(Model, self).__setattr__(key, value)
  \<close>
\<close>

definition py_setattr :: "addr \<Rightarrow> string \<Rightarrow> pyval \<Rightarrow> mstate \<Rightarrow> unit res" where
  "py_setattr a key v =
     thn (get_inst a) (\<lambda>i s.
       if changed i < length (sets s) then
         (Inr (),
          upd_inst a (\<lambda>i. i\<lparr>attrs := (attrs i)(key \<mapsto> v)\<rparr>)
            (if take 1 key = ''_'' then s
             else s\<lparr>sets := (sets s)[changed i := insert key (sets s ! changed i)]\<rparr>))
       else (Inl BadReference, s))"

section \<open>Keys, footprint, path and the attribute-miss protocol\<close>

text \<open>
  Attribute reads call each other: a miss fetches, the fetch needs the path, the path
  needs the key values, and the key values read attributes of the instance and ask its
  owner. The two entry points of that recursion are the calls below; each function is
  written over \<open>rc\<close>, the same calls one stack frame deeper.
\<close>

datatype call = GetAttr addr string | PkVals addr

text \<open>What ordinary lookup finds for a name before \<^verbatim>\<open>__getattr__\<close> is asked.\<close>

definition lookup_attr :: "model_inst \<Rightarrow> string \<Rightarrow> pyval option" where
  "lookup_attr i name =
     (if name = ''_pyresto_owner'' then map_option PObj (owner i) else attrs i name)"

definition cached_pk :: "model_inst \<Rightarrow> pyval list option" where
  "cached_pk i = (case pk_cache i of None \<Rightarrow> None | Some vs \<Rightarrow> if vs = [] then None else Some vs)"

text \<open>The slice \<^verbatim>\<open>xs[:n]\<close> and the repetition \<^verbatim>\<open>(v,) * n\<close> for any integer \<open>n\<close>.\<close>

definition py_slice_to :: "int \<Rightarrow> 'a list \<Rightarrow> 'a list" where
  "py_slice_to n xs = (if 0 \<le> n then take (nat n) xs else take (nat (int (length xs) + n)) xs)"

definition py_repeat :: "int \<Rightarrow> 'a \<Rightarrow> 'a list" where
  "py_repeat n v = replicate (nat n) v"

text \<open>
  The property \<^verbatim>\<open>_id\<close>.
  \<^verbatim>\<open>
    if self.__pk_vals:
        return self.__pk_vals[-1]
    else:  # assuming last pk is defined on self!
        return getattr(self, self._pk[-1])
  \<close>
\<close>

definition get_id :: "(call \<Rightarrow> mstate \<Rightarrow> pyval res) \<Rightarrow> env \<Rightarrow> addr \<Rightarrow> mstate \<Rightarrow> pyval res" where
  "get_id rc E a =
     thn (get_inst a) (\<lambda>i.
       case cached_pk i of
         Some vs \<Rightarrow> ret (last vs)
       | None \<Rightarrow>
           (if c_pk (classes E (i_cls i)) = [] then raise IndexError
            else rc (GetAttr a (last (c_pk (classes E (i_cls i)))))))"

text \<open>
  The property \<^verbatim>\<open>_footprint\<close>; the \<^verbatim>\<open>self\<close> entry is added where the footprint is used.
  \<^verbatim>\<open>
    if not self.__footprint:
        self.__footprint = dict(zip(self._pk, self._pk_vals))
        self.__footprint['self'] = self
    return self.__footprint
  \<close>
\<close>

definition footprint :: "(call \<Rightarrow> mstate \<Rightarrow> pyval res) \<Rightarrow> env \<Rightarrow> addr \<Rightarrow> mstate \<Rightarrow> (string \<times> pyval) list res" where
  "footprint rc E a =
     thn (get_inst a) (\<lambda>i.
       case fp_cache i of
         Some fp \<Rightarrow> ret fp
       | None \<Rightarrow>
           thn (rc (PkVals a)) (\<lambda>v s.
             case v of
               PTuple vs \<Rightarrow>
                 (Inr (zip (c_pk (classes E (i_cls i))) vs),
                  upd_inst a (\<lambda>i'. i'\<lparr>fp_cache := Some (zip (c_pk (classes E (i_cls i))) vs)\<rparr>) s)
             | _ \<Rightarrow> (Inl TypeError, s)))"

text \<open>
  The property \<^verbatim>\<open>_current_path\<close>: \<^verbatim>\<open>self._path.format(**self._footprint)\<close>.
\<close>

definition current_path :: "(call \<Rightarrow> mstate \<Rightarrow> pyval res) \<Rightarrow> env \<Rightarrow> addr \<Rightarrow> mstate \<Rightarrow> pyval res" where
  "current_path rc E a =
     thn (get_inst a) (\<lambda>i.
       thn (footprint rc E a) (\<lambda>fp s.
         (format E (c_path (classes E (i_cls i))) (fp @ [(''self'', PObj a)]), s)))"

text \<open>
  The argument of \<^verbatim>\<open>dict.update\<close>: a mapping gives its items, an empty sequence gives
  none, a value that is not iterable raises \<^verbatim>\<open>TypeError\<close>. A sequence with elements is
  read by Python as a sequence of pairs, which the model does not follow.
\<close>

definition dict_arg :: "pyval \<Rightarrow> error + (string \<times> pyval) list" where
  "dict_arg v =
     (case v of
        PDict kvs \<Rightarrow> Inr kvs
      | PList xs \<Rightarrow> if xs = [] then Inr [] else Inl Unmodelled
      | PTuple xs \<Rightarrow> if xs = [] then Inr [] else Inl Unmodelled
      | PStr cs \<Rightarrow> if cs = [] then Inr [] else Inl Unmodelled
      | POpaque n \<Rightarrow> Inl Unmodelled
      | _ \<Rightarrow> Inl TypeError)"

text \<open>
  \<^verbatim>\<open>Model.__fetch\<close>.
  \<^verbatim>\<open>
    data, next_url = self._rest_call(url=self._current_path, auth=self._auth)
    if data:
        self.__dict__.update(data)
        cls = self.__class__
        overlaps = set(cls.__dict__) & set(data)
        for item in overlaps: ...
        self._fetched = True
  \<close>
\<close>

definition fetch :: "(call \<Rightarrow> mstate \<Rightarrow> pyval res) \<Rightarrow> env \<Rightarrow> addr \<Rightarrow> mstate \<Rightarrow> unit res" where
  "fetch rc E a =
     thn (current_path rc E a) (\<lambda>path.
       thn (get_inst a) (\<lambda>i.
         thn (rest_call E (Request (i_cls i) ''GET'' path (instance_auth (classes E) i) None True))
           (\<lambda>(data, next_url) s.
              if truthy data then
                (case dict_arg data of
                   Inr kvs \<Rightarrow>
                     (Inr (),
                      upd_inst a (\<lambda>i'. i'\<lparr>attrs := reroute (c_relations (classes E (i_cls i')))
                                                  (map fst kvs) (attrs i' ++ map_of kvs),
                                          fetched := True\<rparr>) s)
                 | Inl e \<Rightarrow> (Inl e, s))
              else (Inr (), s))))"

text \<open>
  \<^verbatim>\<open>Model.__getattr__\<close>, which Python calls when ordinary lookup has failed.
  \<^verbatim>\<open>
    if self._fetched:  # if we fetched and still don't have it, no luck!
        raise AttributeError
    self.__fetch()
    return getattr(self, name)  # try again after fetching
  \<close>
\<close>

definition dunder_getattr :: "(call \<Rightarrow> mstate \<Rightarrow> pyval res) \<Rightarrow> env \<Rightarrow> addr \<Rightarrow> string \<Rightarrow> mstate \<Rightarrow> pyval res" where
  "dunder_getattr rc E a name =
     thn (get_inst a) (\<lambda>i.
       if fetched i then raise AttributeError
       else thn (fetch rc E a) (\<lambda>_. rc (GetAttr a name)))"

text \<open>\<^verbatim>\<open>getattr(self, name)\<close> for a data name or \<^verbatim>\<open>_pyresto_owner\<close>.\<close>

definition getattr_body :: "(call \<Rightarrow> mstate \<Rightarrow> pyval res) \<Rightarrow> env \<Rightarrow> addr \<Rightarrow> string \<Rightarrow> mstate \<Rightarrow> pyval res" where
  "getattr_body rc E a name =
     thn (get_inst a) (\<lambda>i.
       case lookup_attr i name of
         Some v \<Rightarrow> ret v
       | None \<Rightarrow> dunder_getattr rc E a name)"

text \<open>
  \<^verbatim>\<open>hasattr(self, '_pyresto_owner')\<close>. Python 2's \<^verbatim>\<open>hasattr\<close> answers \<^verbatim>\<open>False\<close> whatever
  exception the lookup raises; the lookup of a missing name goes through
  \<^verbatim>\<open>__getattr__\<close>, whose effects stay.
\<close>

definition hasattr_owner :: "(call \<Rightarrow> mstate \<Rightarrow> pyval res) \<Rightarrow> env \<Rightarrow> addr \<Rightarrow> mstate \<Rightarrow> bool res" where
  "hasattr_owner rc E a s =
     (case getattr_body rc E a ''_pyresto_owner'' s of
        (Inl e, s') \<Rightarrow> (Inr False, s')
      | (Inr v, s') \<Rightarrow> (Inr True, s'))"

text \<open>
  The getter of the property \<^verbatim>\<open>_pk_vals\<close>.
  \<^verbatim>\<open>
    if not self.__pk_vals:
        if hasattr(self, '_pyresto_owner'):
            self.__pk_vals = self._pyresto_owner._pk_vals[:len(self._pk) - 1] + (self._id,)
        else:
            self.__pk_vals = (None,) * (len(self._pk) - 1) + (self._id,)
    return self.__pk_vals
  \<close>
\<close>

definition pk_prefix :: "(call \<Rightarrow> mstate \<Rightarrow> pyval res) \<Rightarrow> env \<Rightarrow> addr \<Rightarrow> int \<Rightarrow> bool \<Rightarrow> mstate \<Rightarrow> pyval list res" where
  "pk_prefix rc E a n has =
     (if has then
        thn (get_inst a) (\<lambda>i.
          case owner i of
            None \<Rightarrow> raise AttributeError
          | Some ow \<Rightarrow>
              thn (rc (PkVals ow)) (\<lambda>v.
                case v of PTuple ovs \<Rightarrow> ret (py_slice_to n ovs) | _ \<Rightarrow> raise TypeError))
      else ret (py_repeat n PNone))"

definition pk_vals_body :: "(call \<Rightarrow> mstate \<Rightarrow> pyval res) \<Rightarrow> env \<Rightarrow> addr \<Rightarrow> mstate \<Rightarrow> pyval res" where
  "pk_vals_body rc E a =
     thn (get_inst a) (\<lambda>i.
       case cached_pk i of
         Some vs \<Rightarrow> ret (PTuple vs)
       | None \<Rightarrow>
           thn (hasattr_owner rc E a) (\<lambda>has.
             thn (pk_prefix rc E a (int (length (c_pk (classes E (i_cls i)))) - 1) has) (\<lambda>pre.
               thn (get_id rc E a) (\<lambda>idv s.
                 (Inr (PTuple (pre @ [idv])),
                  upd_inst a (\<lambda>i'. i'\<lparr>pk_cache := Some (pre @ [idv])\<rparr>) s)))))"

text \<open>
  The recursion, bounded by the depth of the interpreter's stack: at depth \<open>0\<close> a call
  raises \<open>RecursionError\<close>.
\<close>

primrec run :: "env \<Rightarrow> nat \<Rightarrow> call \<Rightarrow> mstate \<Rightarrow> pyval res" where
  "run E 0 = (\<lambda>c s. (Inl RecursionError, s))"
| "run E (Suc n) =
     (\<lambda>c. case c of
        GetAttr a name \<Rightarrow> getattr_body (run E n) E a name
      | PkVals a \<Rightarrow> pk_vals_body (run E n) E a)"

text \<open>The attribute read \<^verbatim>\<open>instance.name\<close> and the property reads at stack depth \<open>n\<close>.\<close>

definition py_getattr :: "env \<Rightarrow> nat \<Rightarrow> addr \<Rightarrow> string \<Rightarrow> mstate \<Rightarrow> pyval res" where
  "py_getattr E n a name = run E n (GetAttr a name)"


section \<open>The decorated class methods\<close>

text \<open>\<^verbatim>\<open>isinstance(instance, cls)\<close> for a model instance.\<close>

definition isinstance :: "env \<Rightarrow> model_inst \<Rightarrow> cname \<Rightarrow> bool" where
  "isinstance E i cls = (cls \<in> set (c_mro (classes E (i_cls i))))"

text \<open>
  \<^verbatim>\<open>Model.delete\<close> under its decorators \<^verbatim>\<open>normalize_auth\<close> and \<^verbatim>\<open>assert_class_instance\<close>,
  called as \<^verbatim>\<open>cls.delete(instance)\<close> or \<^verbatim>\<open>cls.delete(instance, auth=v)\<close>.
  \<^verbatim>\<open>
    cls._rest_call(method="DELETE", url=instance._current_path, auth=auth)
    return True  # will raise error if server responds with non 2xx
  \<close>
\<close>

definition delete :: "env \<Rightarrow> nat \<Rightarrow> cname \<Rightarrow> addr \<Rightarrow> pyval option \<Rightarrow> mstate \<Rightarrow> bool res" where
  "delete E n cls a kw =
     thn (get_inst a) (\<lambda>i.
       if \<not> isinstance E i cls then raise AssertionError
       else
         thn (current_path (run E n) E a) (\<lambda>path.
           thn (rest_call E (Request cls ''DELETE'' path (normalize_auth (classes E) cls i kw) None True))
             (\<lambda>_. ret True)))"







section \<open>Equality and reading\<close>

text \<open>
  \<^verbatim>\<open>==\<close> on key values: booleans and integers compare as numbers, strings and \<^verbatim>\<open>None\<close>
  by value, opaque objects by identity. The comparison of containers and of model
  instances is not modelled.
\<close>

definition py_num :: "pyval \<Rightarrow> int option" where
  "py_num v = (case v of PBool b \<Rightarrow> Some (if b then 1 else 0) | PInt i \<Rightarrow> Some i | _ \<Rightarrow> None)"

definition is_scalar :: "pyval \<Rightarrow> bool" where
  "is_scalar v =
     (case v of PNone \<Rightarrow> True | PBool b \<Rightarrow> True | PInt i \<Rightarrow> True | PStr cs \<Rightarrow> True
      | POpaque k \<Rightarrow> True | _ \<Rightarrow> False)"

definition key_eq :: "pyval \<Rightarrow> pyval \<Rightarrow> error + bool" where
  "key_eq x y =
     (if is_scalar x \<and> is_scalar y then
        (case (py_num x, py_num y) of
           (Some i, Some j) \<Rightarrow> Inr (i = j)
         | _ \<Rightarrow> Inr (x = y))
      else Inl Unmodelled)"

text \<open>
  The method \<^verbatim>\<open>Model.__eq__(self, other)\<close>, as a direct call runs it:
  \<^verbatim>\<open>return isinstance(other, self.__class__) and self._id == other._id\<close>.
\<close>

definition model_eq :: "env \<Rightarrow> nat \<Rightarrow> addr \<Rightarrow> pyval \<Rightarrow> mstate \<Rightarrow> bool res" where
  "model_eq E n a other =
     (case other of
        PObj b \<Rightarrow>
          thn (get_inst a) (\<lambda>i.
            thn (get_inst b) (\<lambda>j.
              if \<not> isinstance E j (i_cls i) then ret False
              else
                thn (get_id (run E n) E a) (\<lambda>x.
                  thn (get_id (run E n) E b) (\<lambda>y s. (key_eq x y, s)))))
      | _ \<Rightarrow> ret False)"

text \<open>
  The comparison \<^verbatim>\<open>a == other\<close> with a model instance on the left. Python 2 asks the
  \<^verbatim>\<open>__eq__\<close> of the right operand first, with the operands swapped, when the class of the
  right operand is a proper subclass of the class of the left one, and the \<^verbatim>\<open>__eq__\<close> of the
  left operand otherwise; it takes the first answer that is not \<^verbatim>\<open>NotImplemented\<close>, and
  \<^verbatim>\<open>Model.__eq__\<close> never gives that answer.
\<close>

definition py_eq :: "env \<Rightarrow> nat \<Rightarrow> addr \<Rightarrow> pyval \<Rightarrow> mstate \<Rightarrow> bool res" where
  "py_eq E n a other =
     (case other of
        PObj b \<Rightarrow>
          thn (get_inst a) (\<lambda>i.
            thn (get_inst b) (\<lambda>j.
              if i_cls j \<noteq> i_cls i \<and> isinstance E j (i_cls i) then model_eq E n b (PObj a)
              else model_eq E n a other))
      | _ \<Rightarrow> model_eq E n a other)"

text \<open>
  \<^verbatim>\<open>Model.read(*args, **kwargs)\<close>; the keyword argument is \<^verbatim>\<open>auth\<close>.
  \<^verbatim>\<open>
    auth = kwargs.pop('auth', cls._auth)
    ids = dict(zip(cls._pk, args))
    path = cls._path.format(**ids)
    data = cls._rest_call(url=path, auth=auth).data
    if not data:
        return None
    instance = cls(**data)
    instance._pk_vals = args
    instance._fetched = True
    if auth:
        instance._auth = auth
    return instance
  \<close>
  The setter of \<^verbatim>\<open>_pk_vals\<close> raises \<^verbatim>\<open>ValueError\<close> unless \<^verbatim>\<open>len(value) == len(self._pk)\<close>.
\<close>

definition read :: "env \<Rightarrow> cname \<Rightarrow> pyval list \<Rightarrow> pyval option \<Rightarrow> mstate \<Rightarrow> pyval res" where
  "read E cls args kw s =
     (let auth = (case kw of None \<Rightarrow> c_auth (classes E cls) | Some v \<Rightarrow> v)
      in case format E (c_path (classes E cls)) (zip (c_pk (classes E cls)) args) of
           Inl e \<Rightarrow> (Inl e, s)
         | Inr path \<Rightarrow>
             thn (rest_call E (Request cls ''GET'' path auth None True))
               (\<lambda>(data, next_url) s1.
                  if \<not> truthy data then (Inr PNone, s1)
                  else
                    (case data of
                       PDict kvs \<Rightarrow>
                         (case new_instance E cls kvs s1 of
                            (b, s2) \<Rightarrow>
                              if length args = length (c_pk (classes E cls)) then
                                (Inr (PObj b),
                                 upd_inst b (\<lambda>j. j\<lparr>pk_cache := Some args, fetched := True,
                                                    i_auth := (if truthy auth then Some auth
                                                               else i_auth j)\<rparr>) s2)
                              else (Inl ValueError, s2))
                     | POpaque k \<Rightarrow> (Inl Unmodelled, s1)
                     | _ \<Rightarrow> (Inl TypeError, s1))) s)"

section \<open>Relations: wrapping, collections and caches\<close>

text \<open>
  The function \<^verbatim>\<open>mapper\<close> that \<^verbatim>\<open>Many._with_owner(owner)\<close> returns, for the relation's model
  class.
  \<^verbatim>\<open>
    if isinstance(data, dict):
        instance = self.__model(**data)
        instance._pyresto_owner = owner
        return instance
    elif isinstance(data, self.__model):
        return data
    else:
        raise TypeError("Invalid type passed to Many.")
  \<close>
\<close>

definition mapper :: "env \<Rightarrow> cname \<Rightarrow> addr \<Rightarrow> pyval \<Rightarrow> mstate \<Rightarrow> pyval res" where
  "mapper E target ow data s =
     (case data of
        PDict kvs \<Rightarrow>
          (case new_instance E target kvs s of
             (b, s1) \<Rightarrow> (Inr (PObj b), upd_inst b (\<lambda>j. j\<lparr>owner := Some ow\<rparr>) s1))
      | PObj b \<Rightarrow>
          thn (get_inst b) (\<lambda>j.
            if isinstance E j target then ret data else raise InvalidRelationData) s
      | _ \<Rightarrow> (Inl InvalidRelationData, s))"

text \<open>
  For the theorems on wrapping: a value is \<open>live\<close> when it is no reference or refers to an
  object of the heap, and it is data a relation accepts when it is a raw record or an
  instance of the relation's model class.
\<close>

definition live :: "mstate \<Rightarrow> pyval \<Rightarrow> bool" where
  "live s x = (case x of PObj b \<Rightarrow> b < length (insts s) | _ \<Rightarrow> True)"

definition relation_data_ok :: "env \<Rightarrow> cname \<Rightarrow> mstate \<Rightarrow> pyval \<Rightarrow> bool" where
  "relation_data_ok E target s x =
     (case x of
        PDict kvs \<Rightarrow> True
      | PObj b \<Rightarrow> b < length (insts s) \<and> isinstance E (insts s ! b) target
      | _ \<Rightarrow> False)"


text \<open>\<^verbatim>\<open>[wrapper(_) for _ in items]\<close>, left to right; the first exception ends it.\<close>

fun wrap_all :: "env \<Rightarrow> cname \<Rightarrow> addr \<Rightarrow> pyval list \<Rightarrow> mstate \<Rightarrow> pyval list res" where
  "wrap_all E target ow [] s = (Inr [], s)"
| "wrap_all E target ow (x # xs) s =
     (case mapper E target ow x s of
        (Inl e, s1) \<Rightarrow> (Inl e, s1)
      | (Inr y, s1) \<Rightarrow>
          (case wrap_all E target ow xs s1 of
             (Inl e, s2) \<Rightarrow> (Inl e, s2)
           | (Inr ys, s2) \<Rightarrow> (Inr (y # ys), s2)))"

text \<open>
  A \<^verbatim>\<open>Many\<close> descriptor: its identity, \<^verbatim>\<open>__model\<close>, \<^verbatim>\<open>__path\<close> (already defaulted to the
  model's path), \<^verbatim>\<open>__lazy\<close> and \<^verbatim>\<open>__preprocessor\<close>. A \<^verbatim>\<open>WrappedList\<close> object holds the list
  itself and its wrapper, the \<^verbatim>\<open>mapper\<close> of a model class and an owner. A \<^verbatim>\<open>LazyList\<close> object
  holds its wrapper and its fetcher, the closure of \<^verbatim>\<open>__make_fetcher\<close> over a URL and the
  owner; neither is ever assigned again.
\<close>

record many_rel =
  m_id :: nat
  m_model :: cname
  m_path :: string
  m_lazy :: bool
  m_pre :: "(pyval \<Rightarrow> error + pyval) option"

record wrapped =
  w_items :: "pyval list"
  w_model :: cname
  w_owner :: addr

record lazylist =
  l_rel :: many_rel
  l_owner :: addr
  l_url :: pyval

datatype coll = Wrapped addr | Lazy addr

text \<open>
  A \<^verbatim>\<open>Foreign\<close> descriptor: its identity, \<^verbatim>\<open>__model\<close>, \<^verbatim>\<open>__key_property\<close> and how the related
  object is found: embedded in the owner's data, by the default extractor (with what
  the regular expression makes of the constructor's \<^verbatim>\<open>key_property\<close>: the item name and
  the optional subscript, or nothing when \<^verbatim>\<open>key_property\<close> was not given), or by a
  caller's extractor, a function of the instance that may read its attributes.
\<close>

datatype fkind =
    Embedded
  | DefaultKey "(string \<times> string option) option"
  | CustomKey "nat \<Rightarrow> addr \<Rightarrow> mstate \<Rightarrow> pyval list res"

record foreign_rel =
  f_id :: nat
  f_model :: cname
  f_key_property :: string
  f_kind :: fkind

text \<open>Whether the key comes from a caller's extractor.\<close>

definition is_custom :: "fkind \<Rightarrow> bool" where
  "is_custom k = (case k of CustomKey g \<Rightarrow> True | _ \<Rightarrow> False)"

text \<open>
  The whole state: the model heap, the heaps of \<^verbatim>\<open>WrappedList\<close> and \<^verbatim>\<open>LazyList\<close> objects,
  and the \<^verbatim>\<open>__cache\<close> dictionaries of the descriptors, keyed by descriptor and owning
  instance. A model class defines \<^verbatim>\<open>__eq__\<close> and no \<^verbatim>\<open>__hash__\<close>; in Python 2 it keeps the
  hash by identity, so a dictionary finds an owner by identity.
\<close>

record world =
  ms :: mstate
  wlists :: "wrapped list"
  lazies :: "lazylist list"
  many_cache :: "nat \<times> addr \<rightharpoonup> coll"
  foreign_cache :: "nat \<times> addr \<rightharpoonup> pyval"

text \<open>
  \<^verbatim>\<open>Many.__sanitize_data\<close> and the conversion \<^verbatim>\<open>list(iterable)\<close>.
  \<^verbatim>\<open>
    if not data:
        return list()
    elif self.__preprocessor:
        return self.__preprocessor(data)
    return data
  \<close>
\<close>

definition sanitize_data :: "many_rel \<Rightarrow> pyval \<Rightarrow> error + pyval" where
  "sanitize_data r data =
     (if \<not> truthy data then Inr (PList [])
      else case m_pre r of Some p \<Rightarrow> p data | None \<Rightarrow> Inr data)"

definition py_iter :: "pyval \<Rightarrow> error + pyval list" where
  "py_iter v =
     (case v of
        PList xs \<Rightarrow> Inr xs
      | PTuple xs \<Rightarrow> Inr xs
      | PDict kvs \<Rightarrow> Inr (map (\<lambda>kv. PStr (fst kv)) kvs)
      | PStr cs \<Rightarrow> Inr (map (\<lambda>c. PStr [c]) cs)
      | POpaque k \<Rightarrow> Inl Unmodelled
      | _ \<Rightarrow> Inl TypeError)"

text \<open>
  \<^verbatim>\<open>WrappedList.__getitem__\<close> (and \<^verbatim>\<open>__getslice__\<close>, which Python 2 calls for \<^verbatim>\<open>l[i:j]\<close> and
  which does the same). A key is an index or a slice \<^verbatim>\<open>i:j\<close> with step one.
  \<^verbatim>\<open>
    item = super(self.__class__, self).__getitem__(key)
    should_wrap = (isinstance(item, dict) or isinstance(key, slice) and
                   any(isinstance(it, dict) for it in item))
    if should_wrap:
        item = ([self.__wrapper(_) for _ in item]
                if isinstance(key, slice) else self.__wrapper(item))
        self[key] = item  # cache wrapped item/slice
    return item
  \<close>
\<close>

datatype key = Index int | Slice int int

definition is_dict :: "pyval \<Rightarrow> bool" where
  "is_dict v = (case v of PDict kvs \<Rightarrow> True | _ \<Rightarrow> False)"

text \<open>The bounds \<open>lo \<le> hi \<le> len\<close> of the slice \<^verbatim>\<open>i:j\<close> of a list of length \<open>len\<close>.\<close>

definition slice_bound :: "nat \<Rightarrow> int \<Rightarrow> nat" where
  "slice_bound len b = (if b < 0 then nat (b + int len) else min (nat b) len)"

definition slice_bounds :: "nat \<Rightarrow> int \<Rightarrow> int \<Rightarrow> nat \<times> nat" where
  "slice_bounds len i j = (slice_bound len i, max (slice_bound len i) (slice_bound len j))"

definition wl_getitem :: "env \<Rightarrow> addr \<Rightarrow> key \<Rightarrow> world \<Rightarrow> (error + pyval) \<times> world" where
  "wl_getitem E w k W =
     (if \<not> w < length (wlists W) then (Inl BadReference, W)
      else
        (let l = wlists W ! w; xs = w_items l
         in case k of
              Index i \<Rightarrow>
                (let p = (if i < 0 then i + int (length xs) else i)
                 in if p < 0 \<or> int (length xs) \<le> p then (Inl IndexError, W)
                    else if is_dict (xs ! nat p) then
                      (case mapper E (w_model l) (w_owner l) (xs ! nat p) (ms W) of
                         (Inl e, s1) \<Rightarrow> (Inl e, W\<lparr>ms := s1\<rparr>)
                       | (Inr v, s1) \<Rightarrow>
                           (Inr v,
                            W\<lparr>ms := s1,
                              wlists := (wlists W)[w := l\<lparr>w_items := xs[nat p := v]\<rparr>]\<rparr>))
                    else (Inr (xs ! nat p), W))
            | Slice i j \<Rightarrow>
                (case slice_bounds (length xs) i j of
                   (lo, hi) \<Rightarrow>
                     if list_ex is_dict (take (hi - lo) (drop lo xs)) then
                       (case wrap_all E (w_model l) (w_owner l) (take (hi - lo) (drop lo xs)) (ms W) of
                          (Inl e, s1) \<Rightarrow> (Inl e, W\<lparr>ms := s1\<rparr>)
                        | (Inr vs, s1) \<Rightarrow>
                            (Inr (PList vs),
                             W\<lparr>ms := s1,
                               wlists := (wlists W)[w := l\<lparr>w_items := take lo xs @ vs @ drop hi xs\<rparr>]\<rparr>))
                     else (Inr (PList (take (hi - lo) (drop lo xs))), W))))"

text \<open>
  A full iteration over \<^verbatim>\<open>WrappedList.__iter__\<close>, with nothing else touching the list
  meanwhile: the items the generator yields, or the exception that ends it.
  \<^verbatim>\<open>
    iterator = super(self.__class__, self).__iter__()
    return (self.__wrapper(item) for item in iterator)
  \<close>
\<close>

definition wl_iterate :: "env \<Rightarrow> addr \<Rightarrow> world \<Rightarrow> (error + pyval list) \<times> world" where
  "wl_iterate E w W =
     (if \<not> w < length (wlists W) then (Inl BadReference, W)
      else
        (case wrap_all E (w_model (wlists W ! w)) (w_owner (wlists W ! w))
                (w_items (wlists W ! w)) (ms W) of
           (r, s1) \<Rightarrow> (r, W\<lparr>ms := s1\<rparr>)))"

text \<open>
  \<^verbatim>\<open>Many.__get__\<close> on an instance.
  \<^verbatim>\<open>
    cache = self.__cache
    if instance not in cache:
        model = self.__model
        path = self.__path.format(**instance._footprint)
        if self.__lazy:
            cache[instance] = LazyList(self._with_owner(instance),
                                       self.__make_fetcher(path, instance))
        else:
            data, next_url = model._rest_call(url=path, auth=instance._auth)
            cache[instance] = WrappedList(self.__sanitize_data(data),
                                          self._with_owner(instance))
    return cache[instance]
  \<close>
\<close>

definition many_path :: "env \<Rightarrow> nat \<Rightarrow> many_rel \<Rightarrow> addr \<Rightarrow> mstate \<Rightarrow> pyval res" where
  "many_path E n r a =
     thn (footprint (run E n) E a) (\<lambda>fp s. (format E (m_path r) (fp @ [(''self'', PObj a)]), s))"

definition many_data :: "env \<Rightarrow> many_rel \<Rightarrow> addr \<Rightarrow> pyval \<Rightarrow> mstate \<Rightarrow> pyval list res" where
  "many_data E r a path =
     thn (get_inst a) (\<lambda>i.
       thn (rest_call E (Request (m_model r) ''GET'' path (instance_auth (classes E) i) None True))
         (\<lambda>(data, next_url) s.
            case sanitize_data r data of
              Inl e \<Rightarrow> (Inl e, s)
            | Inr d \<Rightarrow> (py_iter d, s)))"

definition many_get :: "env \<Rightarrow> nat \<Rightarrow> many_rel \<Rightarrow> addr \<Rightarrow> world \<Rightarrow> (error + coll) \<times> world" where
  "many_get E n r a W =
     (case many_cache W (m_id r, a) of
        Some c \<Rightarrow> (Inr c, W)
      | None \<Rightarrow>
          (case many_path E n r a (ms W) of
             (Inl e, s1) \<Rightarrow> (Inl e, W\<lparr>ms := s1\<rparr>)
           | (Inr path, s1) \<Rightarrow>
               if m_lazy r then
                 (Inr (Lazy (length (lazies W))),
                  W\<lparr>ms := s1,
                    lazies := lazies W @ [\<lparr>l_rel = r, l_owner = a, l_url = path\<rparr>],
                    many_cache := (many_cache W)((m_id r, a) \<mapsto> Lazy (length (lazies W)))\<rparr>)
               else
                 (case many_data E r a path s1 of
                    (Inl e, s2) \<Rightarrow> (Inl e, W\<lparr>ms := s2\<rparr>)
                  | (Inr items, s2) \<Rightarrow>
                      (Inr (Wrapped (length (wlists W))),
                       W\<lparr>ms := s2,
                         wlists := wlists W @
                           [\<lparr>w_items = items, w_model = m_model r, w_owner = a\<rparr>],
                         many_cache :=
                           (many_cache W)((m_id r, a) \<mapsto> Wrapped (length (wlists W)))\<rparr>))))"

text \<open>
  The default key extractor of \<^verbatim>\<open>Foreign\<close>.
  \<^verbatim>\<open>
    footprint = instance._footprint
    ids = list()
    for k in self.__model._pk[:-1]:
        ids.append(footprint[k] if k in footprint else getattr(instance, k))
    item, key = re.match(r'(\w+)(?:\[(\w+)\])?', key_property).groups()
    item = getattr(instance, item)
    ids.append(item[key] if key else item)
    return tuple(ids)
  \<close>
\<close>

definition subscript :: "pyval \<Rightarrow> string \<Rightarrow> error + pyval" where
  "subscript v k =
     (case v of
        PDict kvs \<Rightarrow> (case map_of kvs k of Some x \<Rightarrow> Inr x | None \<Rightarrow> Inl KeyError)
      | POpaque n \<Rightarrow> Inl Unmodelled
      | _ \<Rightarrow> Inl TypeError)"

fun extract_ids ::
  "(call \<Rightarrow> mstate \<Rightarrow> pyval res) \<Rightarrow> addr \<Rightarrow> (string \<times> pyval) list \<Rightarrow> string list \<Rightarrow> mstate \<Rightarrow>
   pyval list res" where
  "extract_ids rc a fp [] s = (Inr [], s)"
| "extract_ids rc a fp (k # ks) s =
     (case (case map_of fp k of Some v \<Rightarrow> (Inr v, s) | None \<Rightarrow> rc (GetAttr a k) s) of
        (Inl e, s1) \<Rightarrow> (Inl e, s1)
      | (Inr v, s1) \<Rightarrow>
          (case extract_ids rc a fp ks s1 of
             (Inl e, s2) \<Rightarrow> (Inl e, s2)
           | (Inr vs, s2) \<Rightarrow> (Inr (v # vs), s2)))"

definition default_extract ::
  "env \<Rightarrow> nat \<Rightarrow> cname \<Rightarrow> (string \<times> string option) option \<Rightarrow> addr \<Rightarrow> mstate \<Rightarrow> pyval list res" where
  "default_extract E n target kp a =
     thn (footprint (run E n) E a) (\<lambda>fp.
       thn (extract_ids (run E n) a (fp @ [(''self'', PObj a)]) (butlast (c_pk (classes E target))))
         (\<lambda>ids.
            case kp of
              None \<Rightarrow> raise TypeError
            | Some (item, sub) \<Rightarrow>
                thn (run E n (GetAttr a item)) (\<lambda>v s.
                  case sub of
                    None \<Rightarrow> (Inr (ids @ [v]), s)
                  | Some k \<Rightarrow>
                      (case subscript v k of
                         Inl e \<Rightarrow> (Inl e, s)
                       | Inr x \<Rightarrow> (Inr (ids @ [x]), s)))))"

text \<open>
  Modelled from the spec: \<^verbatim>\<open>Model.get\<close>, which \<^verbatim>\<open>Foreign.__get__\<close> calls, is not defined in
  \<^verbatim>\<open>core.py\<close>. The specification has the related object fetched "by that composed key (a
  full Read)", so the call is \<^verbatim>\<open>Model.read\<close> with the same arguments.
\<close>

definition model_get :: "env \<Rightarrow> cname \<Rightarrow> pyval list \<Rightarrow> pyval option \<Rightarrow> mstate \<Rightarrow> pyval res" where
  "model_get E cls args kw = read E cls args kw"

text \<open>
  \<^verbatim>\<open>Foreign.__get__\<close> on an instance.
  \<^verbatim>\<open>
    if instance not in self.__cache:
        if self.__embedded:
            self.__cache[instance] = self.__model(
                **getattr(instance, self.__key_property))
            self.__cache[instance]._auth = instance._auth
        else:
            self.__cache[instance] = self.__model.get(
                *self.__key_extractor(instance), auth=instance._auth)
        self.__cache[instance]._pyresto_owner = instance
    return self.__cache[instance]
  \<close>
  Where \<^verbatim>\<open>get\<close> has returned \<^verbatim>\<open>None\<close> the entry is stored and the assignment of the owner
  raises \<^verbatim>\<open>AttributeError\<close>.
\<close>

definition foreign_embedded :: "env \<Rightarrow> nat \<Rightarrow> foreign_rel \<Rightarrow> addr \<Rightarrow> mstate \<Rightarrow> addr res" where
  "foreign_embedded E n f a =
     thn (py_getattr E n a (f_key_property f)) (\<lambda>d.
       thn (get_inst a) (\<lambda>i s.
         case d of
           PDict kvs \<Rightarrow>
             (case new_instance E (f_model f) kvs s of
                (b, s1) \<Rightarrow>
                  (Inr b,
                   upd_inst b (\<lambda>j. j\<lparr>i_auth := Some (instance_auth (classes E) i),
                                      owner := Some a\<rparr>) s1))
         | POpaque k \<Rightarrow> (Inl Unmodelled, s)
         | _ \<Rightarrow> (Inl TypeError, s)))"

definition foreign_fetch :: "env \<Rightarrow> nat \<Rightarrow> foreign_rel \<Rightarrow> addr \<Rightarrow> mstate \<Rightarrow> pyval res" where
  "foreign_fetch E n f a =
     thn (case f_kind f of
            CustomKey g \<Rightarrow> g n a
          | DefaultKey kp \<Rightarrow> default_extract E n (f_model f) kp a
          | Embedded \<Rightarrow> raise TypeError)
       (\<lambda>ids. thn (get_inst a) (\<lambda>i.
          model_get E (f_model f) ids (Some (instance_auth (classes E) i))))"

definition foreign_get :: "env \<Rightarrow> nat \<Rightarrow> foreign_rel \<Rightarrow> addr \<Rightarrow> world \<Rightarrow> (error + pyval) \<times> world" where
  "foreign_get E n f a W =
     (case foreign_cache W (f_id f, a) of
        Some v \<Rightarrow> (Inr v, W)
      | None \<Rightarrow>
          (case f_kind f of
             Embedded \<Rightarrow>
               (case foreign_embedded E n f a (ms W) of
                  (Inl e, s1) \<Rightarrow> (Inl e, W\<lparr>ms := s1\<rparr>)
                | (Inr b, s1) \<Rightarrow>
                    (Inr (PObj b),
                     W\<lparr>ms := s1,
                       foreign_cache := (foreign_cache W)((f_id f, a) \<mapsto> PObj b)\<rparr>))
           | _ \<Rightarrow>
               (case foreign_fetch E n f a (ms W) of
                  (Inl e, s1) \<Rightarrow> (Inl e, W\<lparr>ms := s1\<rparr>)
                | (Inr v, s1) \<Rightarrow>
                    (case v of
                       PObj b \<Rightarrow>
                         (Inr v,
                          W\<lparr>ms := upd_inst b (\<lambda>j. j\<lparr>owner := Some a\<rparr>) s1,
                            foreign_cache := (foreign_cache W)((f_id f, a) \<mapsto> v)\<rparr>)
                     | _ \<Rightarrow>
                         (Inl AttributeError,
                          W\<lparr>ms := s1,
                            foreign_cache := (foreign_cache W)((f_id f, a) \<mapsto> v)\<rparr>)))))"

section \<open>Lazy collections\<close>

text \<open>
  The function \<^verbatim>\<open>fetcher\<close> that \<^verbatim>\<open>Many.__make_fetcher(url, instance)\<close> returns: the page and
  the URL the next fetcher is made for, if there is one.
  \<^verbatim>\<open>
    data, new_url = self.__model._rest_call(url=url, auth=instance._auth,
                                            fetch_all=False)
    data = self.__sanitize_data(data)
    new_fetcher = self.__make_fetcher(new_url, instance) if new_url else None
    return data, new_fetcher
  \<close>
\<close>

definition fetcher :: "env \<Rightarrow> many_rel \<Rightarrow> addr \<Rightarrow> pyval \<Rightarrow> mstate \<Rightarrow> (pyval \<times> pyval option) res" where
  "fetcher E r ow url =
     thn (get_inst ow) (\<lambda>i.
       thn (rest_call E (Request (m_model r) ''GET'' url (instance_auth (classes E) i) None False))
         (\<lambda>(data, new_url) s.
            case sanitize_data r data of
              Inl e \<Rightarrow> (Inl e, s)
            | Inr d \<Rightarrow> (Inr (d, if truthy new_url then Some new_url else None), s)))"

text \<open>
  One iteration of a \<^verbatim>\<open>LazyList\<close>, the generator of \<^verbatim>\<open>__iter__\<close>: its local variable
  \<^verbatim>\<open>fetcher\<close> (the URL the pending fetcher is bound to, or \<open>None\<close>) and what is left of the
  page the \<^verbatim>\<open>for\<close> loop is in.
  \<^verbatim>\<open>
    fetcher = self.__fetcher
    while fetcher:
        data, fetcher = fetcher()
        for item in data:
            yield self.__wrapper(item)
  \<close>
\<close>

record lazy_iter =
  it_rel :: many_rel
  it_owner :: addr
  it_fetcher :: "pyval option"
  it_buf :: "pyval list"

definition lazy_iter_new :: "lazylist \<Rightarrow> lazy_iter" where
  "lazy_iter_new l = \<lparr>it_rel = l_rel l, it_owner = l_owner l, it_fetcher = Some (l_url l), it_buf = []\<rparr>"

text \<open>A generator that has raised is finished.\<close>

definition finished :: "lazy_iter \<Rightarrow> lazy_iter" where
  "finished it = it\<lparr>it_fetcher := None, it_buf := []\<rparr>"

text \<open>
  \<^verbatim>\<open>next\<close> on the generator: an item, the end (\<open>Inr None\<close>) or an exception, with the
  generator afterwards. The loop may fetch page after page without reaching an item;
  the first argument bounds the pages of one call, and the result is \<open>None\<close> when the
  bound is reached.
\<close>

fun lazy_next ::
  "nat \<Rightarrow> env \<Rightarrow> lazy_iter \<Rightarrow> mstate \<Rightarrow> ((error + pyval option) \<times> lazy_iter \<times> mstate) option" where
  "lazy_next k E it s =
     (case it_buf it of
        x # rest \<Rightarrow>
          (case mapper E (m_model (it_rel it)) (it_owner it) x s of
             (Inl e, s1) \<Rightarrow> Some (Inl e, finished it, s1)
           | (Inr v, s1) \<Rightarrow> Some (Inr (Some v), it\<lparr>it_buf := rest\<rparr>, s1))
      | [] \<Rightarrow>
          (case it_fetcher it of
             None \<Rightarrow> Some (Inr None, it, s)
           | Some url \<Rightarrow>
               (case k of
                  0 \<Rightarrow> None
                | Suc k' \<Rightarrow>
                    (case fetcher E (it_rel it) (it_owner it) url s of
                       (Inl e, s1) \<Rightarrow> Some (Inl e, finished it, s1)
                     | (Inr (d, f'), s1) \<Rightarrow>
                         (case py_iter d of
                            Inl e \<Rightarrow> Some (Inl e, finished it, s1)
                          | Inr items \<Rightarrow>
                              lazy_next k' E (it\<lparr>it_fetcher := f', it_buf := items\<rparr>) s1)))))"

text \<open>
  A full iteration, \<^verbatim>\<open>list(lazy)\<close>: the wrapped items in order. The bound counts the calls
  of \<^verbatim>\<open>next\<close> and the pages of each.
\<close>

fun lazy_all :: "nat \<Rightarrow> env \<Rightarrow> lazy_iter \<Rightarrow> mstate \<Rightarrow> ((error + pyval list) \<times> mstate) option" where
  "lazy_all 0 E it s = None"
| "lazy_all (Suc k) E it s =
     (case lazy_next (Suc k) E it s of
        None \<Rightarrow> None
      | Some (Inl e, it', s1) \<Rightarrow> Some (Inl e, s1)
      | Some (Inr None, it', s1) \<Rightarrow> Some (Inr [], s1)
      | Some (Inr (Some v), it', s1) \<Rightarrow>
          (case lazy_all k E it' s1 of
             None \<Rightarrow> None
           | Some (Inl e, s2) \<Rightarrow> Some (Inl e, s2)
           | Some (Inr vs, s2) \<Rightarrow> Some (Inr (v # vs), s2)))"

section \<open>Relations between states\<close>

text \<open>
  What a run may do to the state, for the proofs below. \<open>step_closed R\<close>: the relation
  \<open>R\<close> holds across each single write of the attribute protocol (the request of a fetch in
  the log, the footprint of an instance, the merge of a fetch, and the key values of an
  instance that had none when the getter was entered). \<open>rc_ok\<close> and \<open>ext\<close> carry it through
  calls.
\<close>

definition step_closed :: "(mstate \<Rightarrow> mstate \<Rightarrow> bool) \<Rightarrow> bool" where
  "step_closed R \<longleftrightarrow>
     (\<forall>s. R s s) \<and>
     (\<forall>s t u. R s t \<longrightarrow> R t u \<longrightarrow> R s u) \<and>
     (\<forall>s c u au. R s (s\<lparr>log := log s @ [Request c ''GET'' u au None True]\<rparr>)) \<and>
     (\<forall>s a fp. R s (upd_inst a (\<lambda>i. i\<lparr>fp_cache := Some fp\<rparr>) s)) \<and>
     (\<forall>s a d. R s (upd_inst a (\<lambda>i. i\<lparr>attrs := d i, fetched := True\<rparr>) s)) \<and>
     (\<forall>s0 s a vs. R s0 s \<longrightarrow> a < length (insts s0) \<longrightarrow> cached_pk (insts s0 ! a) = None \<longrightarrow> vs \<noteq> [] \<longrightarrow>
         R s0 (upd_inst a (\<lambda>i. i\<lparr>pk_cache := Some vs\<rparr>) s))"

definition rc_ok :: "(mstate \<Rightarrow> mstate \<Rightarrow> bool) \<Rightarrow> (call \<Rightarrow> mstate \<Rightarrow> pyval res) \<Rightarrow> bool" where
  "rc_ok R rc \<longleftrightarrow> (\<forall>c s r s'. rc c s = (r, s') \<longrightarrow> R s s')"

definition ext :: "(mstate \<Rightarrow> mstate \<Rightarrow> bool) \<Rightarrow> mstate \<Rightarrow> (mstate \<Rightarrow> 'a res) \<Rightarrow> bool" where
  "ext R s0 m \<longleftrightarrow> (\<forall>s r s'. R s0 s \<longrightarrow> m s = (r, s') \<longrightarrow> R s0 s')"

definition static_rel :: "mstate \<Rightarrow> mstate \<Rightarrow> bool" where
  "static_rel s s' \<longleftrightarrow>
     sets s' = sets s \<and> length (insts s') = length (insts s) \<and>
     (\<forall>b. i_cls (insts s' ! b) = i_cls (insts s ! b) \<and> changed (insts s' ! b) = changed (insts s ! b) \<and>
          owner (insts s' ! b) = owner (insts s ! b) \<and> i_auth (insts s' ! b) = i_auth (insts s ! b))"

definition log_ext :: "mstate \<Rightarrow> mstate \<Rightarrow> bool" where
  "log_ext s s' \<longleftrightarrow> (\<exists>ys. log s' = log s @ ys)"



text \<open>
  \<open>grows s t\<close>: every object of \<open>s\<close> is an object of \<open>t\<close>, of the same class and with the
  same credentials of its own. This is what creating objects and logging requests do to a
  state.
\<close>

definition grows :: "mstate \<Rightarrow> mstate \<Rightarrow> bool" where
  "grows s t \<longleftrightarrow>
     length (insts s) \<le> length (insts t) \<and>
     (\<forall>b < length (insts s). i_cls (insts t ! b) = i_cls (insts s ! b) \<and>
                              i_auth (insts t ! b) = i_auth (insts s ! b))"

section \<open>Example: one class, one instance with its own credentials\<close>

definition item_class :: pyclass where
  "item_class = \<lparr>c_mro = [''Item''], c_path = ''/item/{id}'', c_pk = [''id''],
                  c_auth = POpaque 1, c_relations = []\<rparr>"

text \<open>A server that answers every call with an empty body and no continuation, and a
  formatter that keeps the template and the keyword arguments side by side.\<close>

definition silent_env :: env where
  "silent_env = \<lparr>classes = (\<lambda>c. item_class), server = (\<lambda>h rq. Inr (PNone, PNone)),
                  format = (\<lambda>t fp. Inr (PTuple (PStr t # map snd fp)))\<rparr>"

text \<open>\<^verbatim>\<open>it = Item(id=1); it._pk_vals = (1,); it._auth = other\<close>, where the class default
  \<^verbatim>\<open>Item._auth\<close> is the object \<open>POpaque 1\<close> and \<^verbatim>\<open>other\<close> is \<open>POpaque 2\<close>.\<close>

definition item_state :: mstate where
  "item_state =
     \<lparr>insts = [\<lparr>i_cls = ''Item'', attrs = [''id'' \<mapsto> PInt 1], fetched = False, changed = 0,
                i_auth = Some (POpaque 2), owner = None, pk_cache = Some [PInt 1],
                fp_cache = None\<rparr>],
      sets = [{}], log = []\<rparr>"

section \<open>Example: a repository and one of its commits\<close>

definition repo_class :: pyclass where
  "repo_class = \<lparr>c_mro = [''Repo''], c_path = ''/repos/{name}'', c_pk = [''name''],
                  c_auth = PNone, c_relations = [''commits'']\<rparr>"

definition commit_class :: pyclass where
  "commit_class = \<lparr>c_mro = [''Commit''], c_path = ''/repos/{repo}/commits/{sha}'',
                    c_pk = [''repo'', ''sha''], c_auth = PNone, c_relations = []\<rparr>"

definition repo_env :: env where
  "repo_env = \<lparr>classes = (\<lambda>c. if c = ''Commit'' then commit_class else repo_class),
                server = (\<lambda>h rq. Inr (PNone, PNone)),
                format = (\<lambda>t fp. Inr (PTuple (PStr t # map snd fp)))\<rparr>"

text \<open>\<^verbatim>\<open>repo = Repo.read('pyresto')\<close>, and a commit that the relation \<^verbatim>\<open>repo.commits\<close> has
  wrapped from the record \<^verbatim>\<open>{"sha": "abc"}\<close>.\<close>

definition repo_state :: mstate where
  "repo_state =
     \<lparr>insts = [\<lparr>i_cls = ''Repo'', attrs = [''name'' \<mapsto> PStr ''pyresto''], fetched = True,
                changed = 0, i_auth = None, owner = None, pk_cache = Some [PStr ''pyresto''],
                fp_cache = None\<rparr>,
               \<lparr>i_cls = ''Commit'', attrs = [''sha'' \<mapsto> PStr ''abc''], fetched = False,
                changed = 1, i_auth = None, owner = Some 0, pk_cache = None,
                fp_cache = None\<rparr>],
      sets = [{}, {}], log = []\<rparr>"

section \<open>Example: an instance with local changes\<close>



section \<open>Example: a class and its subclass\<close>

text \<open>\<^verbatim>\<open>class Shape(Model)\<close> and \<^verbatim>\<open>class Square(Shape)\<close>, with \<^verbatim>\<open>a = Shape(id=1)\<close>,
  \<^verbatim>\<open>b = Square(id=1)\<close> and \<^verbatim>\<open>c = Shape(id=1)\<close>, all marked fetched.\<close>

definition shape_env :: env where
  "shape_env =
     \<lparr>classes = (\<lambda>c. \<lparr>c_mro = (if c = ''Square'' then [''Square'', ''Shape''] else [''Shape'']),
                        c_path = ''/shape/{id}'', c_pk = [''id''], c_auth = PNone,
                        c_relations = []\<rparr>),
      server = (\<lambda>h rq. Inr (PNone, PNone)),
      format = (\<lambda>t fp. Inr (PTuple (PStr t # map snd fp)))\<rparr>"

definition shape_state :: mstate where
  "shape_state =
     \<lparr>insts = [\<lparr>i_cls = ''Shape'', attrs = [''id'' \<mapsto> PInt 1], fetched = True, changed = 0,
                i_auth = None, owner = None, pk_cache = None, fp_cache = None\<rparr>,
               \<lparr>i_cls = ''Square'', attrs = [''id'' \<mapsto> PInt 1], fetched = True, changed = 1,
                i_auth = None, owner = None, pk_cache = None, fp_cache = None\<rparr>,
               \<lparr>i_cls = ''Shape'', attrs = [''id'' \<mapsto> PInt 1], fetched = True, changed = 2,
                i_auth = None, owner = None, pk_cache = None, fp_cache = None\<rparr>],
      sets = [{}, {}, {}], log = []\<rparr>"

section \<open>Example: a collection of commits\<close>

text \<open>The \<^verbatim>\<open>WrappedList\<close> of the repository's commits as the server sent it, with a stray
  number between two records.\<close>

definition bag_world :: world where
  "bag_world =
     \<lparr>ms = repo_state,
      wlists = [\<lparr>w_items = [PDict [(''sha'', PStr ''abc'')], PInt 3, PDict [(''sha'', PStr ''def'')]],
                 w_model = ''Commit'', w_owner = 0\<rparr>],
      lazies = [], many_cache = Map.empty, foreign_cache = Map.empty\<rparr>"


section \<open>Example: two commits with comments and authors\<close>

text \<open>A repository and two of its commits, each carrying its author's record under
  \<^verbatim>\<open>__author\<close>; the relations \<^verbatim>\<open>comments = Many(Comment, ...)\<close> and
  \<^verbatim>\<open>author = Foreign(User, embedded=True)\<close> of the class \<^verbatim>\<open>Commit\<close>. Nothing is cached yet.\<close>

definition pair_world :: world where
  "pair_world =
     \<lparr>ms = \<lparr>insts = [\<lparr>i_cls = ''Repo'', attrs = [''name'' \<mapsto> PStr ''pyresto''], fetched = True,
                     changed = 0, i_auth = None, owner = None,
                     pk_cache = Some [PStr ''pyresto''], fp_cache = None\<rparr>,
                    \<lparr>i_cls = ''Commit'',
                     attrs = [''sha'' \<mapsto> PStr ''abc'', ''__author'' \<mapsto> PDict [(''name'', PStr ''ann'')]],
                     fetched = False, changed = 1, i_auth = None, owner = Some 0,
                     pk_cache = None, fp_cache = None\<rparr>,
                    \<lparr>i_cls = ''Commit'',
                     attrs = [''sha'' \<mapsto> PStr ''def'', ''__author'' \<mapsto> PDict [(''name'', PStr ''bob'')]],
                     fetched = False, changed = 2, i_auth = None, owner = Some 0,
                     pk_cache = None, fp_cache = None\<rparr>],
            sets = [{}, {}, {}], log = []\<rparr>,
      wlists = [], lazies = [], many_cache = Map.empty, foreign_cache = Map.empty\<rparr>"

definition comments_rel :: many_rel where
  "comments_rel = \<lparr>m_id = 0, m_model = ''Comment'', m_path = ''/repos/{repo}/commits/{sha}/comments'',
                    m_lazy = False, m_pre = None\<rparr>"

definition author_rel :: foreign_rel where
  "author_rel = \<lparr>f_id = 1, f_model = ''User'', f_key_property = ''__author'', f_kind = Embedded\<rparr>"

section \<open>Example: a lazy collection of two pages\<close>

text \<open>A server that answers the commits of the repository in two pages, the first with the
  URL of the second, whatever was requested before; and the lazy collection
  \<^verbatim>\<open>repo.commits\<close> for \<^verbatim>\<open>commits = Many(Commit, '/repos/{name}/commits', lazy=True)\<close>.\<close>

definition page_env :: env where
  "page_env = \<lparr>classes = (\<lambda>c. if c = ''Commit'' then commit_class else repo_class),
                server = (\<lambda>h rq.
                  if r_url rq = PStr ''/repos/pyresto/commits'' then
                    Inr (PList [PDict [(''sha'', PStr ''a'')], PDict [(''sha'', PStr ''b'')]],
                         PStr ''/repos/pyresto/commits?page=2'')
                  else if r_url rq = PStr ''/repos/pyresto/commits?page=2'' then
                    Inr (PList [PDict [(''sha'', PStr ''c'')]], PNone)
                  else Inl ServerResponseError),
                format = (\<lambda>t fp. Inr (PTuple (PStr t # map snd fp)))\<rparr>"

definition commits_lazy :: lazylist where
  "commits_lazy =
     \<lparr>l_rel = \<lparr>m_id = 0, m_model = ''Commit'', m_path = ''/repos/{name}/commits'', m_lazy = True,
               m_pre = None\<rparr>,
      l_owner = 0, l_url = PStr ''/repos/pyresto/commits''\<rparr>"

section \<open>Theorems\<close>

subsection \<open>Sequencing and what a run preserves\<close>

lemma thnE:
  assumes "thn m f s = (r, s')"
  obtains e where "m s = (Inl e, s')" "r = Inl e"
        | x s1 where "m s = (Inr x, s1)" "f x s1 = (r, s')"
  using assms by (auto simp: thn_def split: prod.splits sum.splits)


lemma ret_eq [simp]: "ret x s = (r, s') \<longleftrightarrow> r = Inr x \<and> s' = s"
  by (auto simp: ret_def)

lemma raise_eq [simp]: "raise e s = (r, s') \<longleftrightarrow> r = Inl e \<and> s' = s"
  by (auto simp: raise_def)

lemma sc_refl: "step_closed R \<Longrightarrow> R s s"
  by (simp add: step_closed_def)

lemma sc_trans: "step_closed R \<Longrightarrow> R s t \<Longrightarrow> R t u \<Longrightarrow> R s u"
  unfolding step_closed_def by blast

lemma sc_log: "step_closed R \<Longrightarrow> R s (s\<lparr>log := log s @ [Request c ''GET'' u au None True]\<rparr>)"
  by (simp add: step_closed_def)

lemma sc_fp: "step_closed R \<Longrightarrow> R s (upd_inst a (\<lambda>i. i\<lparr>fp_cache := Some fp\<rparr>) s)"
  by (simp add: step_closed_def)

lemma sc_ft: "step_closed R \<Longrightarrow> R s (upd_inst a (\<lambda>i. i\<lparr>attrs := d i, fetched := True\<rparr>) s)"
  by (simp add: step_closed_def)

lemma sc_pk: "step_closed R \<Longrightarrow> R s0 s \<Longrightarrow> a < length (insts s0) \<Longrightarrow> cached_pk (insts s0 ! a) = None \<Longrightarrow> vs \<noteq> [] \<Longrightarrow>
         R s0 (upd_inst a (\<lambda>i. i\<lparr>pk_cache := Some vs\<rparr>) s)" unfolding step_closed_def by blast

lemma rc_okD: "rc_ok R rc \<Longrightarrow> rc c s = (r, s') \<Longrightarrow> R s s'"
  unfolding rc_ok_def by blast

lemma extI: "(\<And>s r s'. R s0 s \<Longrightarrow> m s = (r, s') \<Longrightarrow> R s0 s') \<Longrightarrow> ext R s0 m"
  unfolding ext_def by blast

lemma extD: "ext R s0 m \<Longrightarrow> R s0 s \<Longrightarrow> m s = (r, s') \<Longrightarrow> R s0 s'"
  unfolding ext_def by blast

lemma ext_thn: "ext R s0 m \<Longrightarrow> (\<And>x. ext R s0 (f x)) \<Longrightarrow> ext R s0 (thn m f)"
  by (rule extI) (erule thnE; blast dest: extD)

lemma ext_ret: "ext R s0 (ret x)"
  by (rule extI) simp

lemma ext_raise: "ext R s0 (raise e)"
  by (rule extI) simp

lemma ext_get_inst: "ext R s0 (get_inst a)"
  by (rule extI) (auto simp: get_inst_def split: if_splits)

lemma ext_rc: "step_closed R \<Longrightarrow> rc_ok R rc \<Longrightarrow> ext R s0 (rc c)"
  by (rule extI) (blast intro: sc_trans dest: rc_okD)

lemma ext_rest_call: "step_closed R \<Longrightarrow> ext R s0 (rest_call E (Request c ''GET'' u au None True))"
  by (rule extI) (auto simp: rest_call_def intro: sc_trans sc_log)

lemma ext_footprint:
  assumes R: "step_closed R" and rc: "rc_ok R rc"
  shows "ext R s0 (footprint rc E a)"
  unfolding footprint_def
  apply (intro ext_thn ext_get_inst)
  apply (simp split: option.split add: ext_ret)
  apply (intro allI impI ext_thn ext_rc[OF R rc])
  apply (rule extI)
  apply (auto split: pyval.splits intro: sc_trans[OF R] sc_fp[OF R])
  done

lemma ext_current_path:
  assumes R: "step_closed R" and rc: "rc_ok R rc"
  shows "ext R s0 (current_path rc E a)"
  unfolding current_path_def
  apply (intro ext_thn ext_get_inst ext_footprint[OF R rc])
  apply (rule extI)
  apply auto
  done

lemma ext_fetch:
  assumes R: "step_closed R" and rc: "rc_ok R rc"
  shows "ext R s0 (fetch rc E a)"
  unfolding fetch_def
  apply (intro ext_thn ext_get_inst ext_current_path[OF R rc] ext_rest_call[OF R])
  apply (rule extI)
  apply (auto split: sum.splits if_splits)
  apply (erule sc_trans[OF R])
  apply (rule sc_ft[OF R])
  done

lemma ext_dunder:
  assumes R: "step_closed R" and rc: "rc_ok R rc"
  shows "ext R s0 (dunder_getattr rc E a name)"
  unfolding dunder_getattr_def
  by (intro ext_thn ext_get_inst) (auto intro!: ext_raise ext_thn ext_fetch[OF R rc] ext_rc[OF R rc])

lemma ext_getattr_body:
  assumes R: "step_closed R" and rc: "rc_ok R rc"
  shows "ext R s0 (getattr_body rc E a name)"
  unfolding getattr_body_def
  by (intro ext_thn ext_get_inst) (auto intro!: ext_ret ext_dunder[OF R rc] split: option.split)

lemma ext_hasattr:
  assumes R: "step_closed R" and rc: "rc_ok R rc"
  shows "ext R s0 (hasattr_owner rc E a)"
  apply (rule extI)
  apply (auto simp: hasattr_owner_def split: prod.splits sum.splits dest: extD[OF ext_getattr_body[OF R rc]])
  done

lemma ext_get_id:
  assumes R: "step_closed R" and rc: "rc_ok R rc"
  shows "ext R s0 (get_id rc E a)"
  unfolding get_id_def
  by (intro ext_thn ext_get_inst) (auto intro!: ext_ret ext_raise ext_rc[OF R rc] split: option.split)

lemma ext_pk_prefix:
  assumes R: "step_closed R" and rc: "rc_ok R rc"
  shows "ext R s0 (pk_prefix rc E a n has)"
  unfolding pk_prefix_def
  by (auto intro!: ext_thn ext_get_inst ext_ret ext_raise ext_rc[OF R rc] split: option.split pyval.split)

lemma getattr_body_ok:
  assumes R: "step_closed R" and rc: "rc_ok R rc" and run: "getattr_body rc E a name s = (r, s')"
  shows "R s s'"
  using extD[OF ext_getattr_body[OF R rc] sc_refl[OF R] run] .

lemma pk_vals_body_ok:
  assumes R: "step_closed R" and rc: "rc_ok R rc" and run: "pk_vals_body rc E a s = (r, s')"
  shows "R s s'"
proof (cases "a < length (insts s) \<and> cached_pk (insts s ! a) = None")
  case False
  with run show ?thesis
    by (auto simp: pk_vals_body_def get_inst_def thn_def sc_refl[OF R] split: if_splits option.splits)
next
  case True
  let ?i = "insts s ! a"
  let ?m = "thn (hasattr_owner rc E a) (\<lambda>has.
             thn (pk_prefix rc E a (int (length (c_pk (classes E (i_cls ?i)))) - 1) has) (\<lambda>pre.
               thn (get_id rc E a) (\<lambda>idv s.
                 (Inr (PTuple (pre @ [idv])),
                  upd_inst a (\<lambda>i'. i'\<lparr>pk_cache := Some (pre @ [idv])\<rparr>) s))))"
  from True run have m: "?m s = (r, s')"
    by (simp add: pk_vals_body_def get_inst_def thn_def)
  have "ext R s ?m"
    apply (intro ext_thn ext_hasattr[OF R rc] ext_pk_prefix[OF R rc] ext_get_id[OF R rc])
    apply (rule extI)
    using True
    apply (auto intro: sc_pk[OF R])
    done
  from extD[OF this sc_refl[OF R] m] show ?thesis .
qed

lemma run_ok:
  assumes R: "step_closed R"
  shows "run E n c s = (r, s') \<Longrightarrow> R s s'"
proof (induction n arbitrary: c s r s')
  case 0
  then show ?case by (simp add: sc_refl[OF R])
next
  case (Suc n)
  have rc: "rc_ok R (run E n)"
    unfolding rc_ok_def using Suc.IH by blast
  from Suc.prems show ?case
    by (cases c) (auto intro: getattr_body_ok[OF R rc] pk_vals_body_ok[OF R rc])
qed

lemma nth_upd_inst:
  "insts (upd_inst a f s) ! b = (if b = a \<and> a < length (insts s) then f (insts s ! a) else insts s ! b)"
  by (cases "a < length (insts s)") (auto simp: upd_inst_def list_update_beyond)

lemma upd_inst_simps [simp]:
  "sets (upd_inst a f s) = sets s" "log (upd_inst a f s) = log s"
  "length (insts (upd_inst a f s)) = length (insts s)"
  by (simp_all add: upd_inst_def)

lemma step_closed_static: "step_closed static_rel"
  unfolding step_closed_def static_rel_def
  by (auto simp: nth_upd_inst)

lemma run_static: "run E n c s = (r, s') \<Longrightarrow> static_rel s s'"
  by (rule run_ok[OF step_closed_static])

lemma step_closed_log: "step_closed log_ext"
  unfolding step_closed_def log_ext_def
  by auto











lemma rc_ok_run: "step_closed R \<Longrightarrow> rc_ok R (run E n)"
  unfolding rc_ok_def by (blast intro: run_ok)



lemma thn_Inr:
  "thn m f s = (Inr y, s') \<longleftrightarrow> (\<exists>x s1. m s = (Inr x, s1) \<and> f x s1 = (Inr y, s'))"
  by (auto simp: thn_def split: prod.splits sum.splits)


subsection \<open>The attribute-miss protocol\<close>

text \<open>
  C1. The claim: a read of a missing attribute on an unfetched instance performs exactly
  one fetch, makes the instance fetched and retries once, failing with
  \<^verbatim>\<open>AttributeError\<close> if the field is still missing. \<^verbatim>\<open>__fetch\<close> sets \<^verbatim>\<open>_fetched\<close> inside
  \<^verbatim>\<open>if data:\<close>, so after an empty body the retry enters \<^verbatim>\<open>__getattr__\<close> unfetched and
  fetches again. Here the server answers every request with an empty body and
  \<^verbatim>\<open>it.name\<close> is read with four stack frames left: four requests are sent, the instance
  stays unfetched and the read ends in the recursion error, not in \<^verbatim>\<open>AttributeError\<close>.
\<close>

theorem getattr_refetches_on_empty_body:
  "\<not> fetched (insts item_state ! 0) \<and>
   attrs (insts item_state ! 0) ''name'' = None \<and>
   fst (py_getattr silent_env 4 0 ''name'' item_state) = Inl RecursionError \<and>
   length (log (snd (py_getattr silent_env 4 0 ''name'' item_state))) = 4 \<and>
   \<not> fetched (insts (snd (py_getattr silent_env 4 0 ''name'' item_state)) ! 0)"
  by code_simp

subsection \<open>Key values\<close>



subsection \<open>Partial update\<close>















subsection \<open>Equality\<close>

lemma key_eq_True:
  "key_eq x y = Inr True \<Longrightarrow> x = y \<or> (\<exists>k. py_num x = Some k \<and> py_num y = Some k)"
  by (auto simp: key_eq_def split: if_splits option.splits)

lemma model_eq_True:
  assumes "model_eq E n a other s = (Inr True, s')"
  shows "\<exists>b x y s1. other = PObj b \<and> a < length (insts s) \<and> b < length (insts s) \<and>
           isinstance E (insts s ! b) (i_cls (insts s ! a)) \<and>
           get_id (run E n) E a s = (Inr x, s1) \<and>
           get_id (run E n) E b s1 = (Inr y, s') \<and>
           key_eq x y = Inr True"
proof (cases other)
  case (PObj b)
  with assms have m: "thn (get_inst a) (\<lambda>i.
            thn (get_inst b) (\<lambda>j.
              if \<not> isinstance E j (i_cls i) then ret False
              else
                thn (get_id (run E n) E a) (\<lambda>x.
                  thn (get_id (run E n) E b) (\<lambda>y s. (key_eq x y, s))))) s = (Inr True, s')"
    by (simp add: model_eq_def)
  then have la: "a < length (insts s)" and lb: "b < length (insts s)"
    by (auto simp: thn_def get_inst_def split: if_splits)
  with m have inst: "isinstance E (insts s ! b) (i_cls (insts s ! a))"
    and r: "thn (get_id (run E n) E a) (\<lambda>x.
              thn (get_id (run E n) E b) (\<lambda>y s. (key_eq x y, s))) s = (Inr True, s')"
    by (auto simp: thn_def get_inst_def ret_def split: if_splits)
  from r obtain x s1 where x: "get_id (run E n) E a s = (Inr x, s1)"
    and r2: "thn (get_id (run E n) E b) (\<lambda>y s. (key_eq x y, s)) s1 = (Inr True, s')"
    unfolding thn_Inr[of "get_id (run E n) E a"] by blast
  from r2 obtain y where "get_id (run E n) E b s1 = (Inr y, s')" "key_eq x y = Inr True"
    unfolding thn_Inr by auto
  with PObj la lb inst x show ?thesis by blast
qed (use assms in \<open>simp_all add: model_eq_def ret_def\<close>)

text \<open>
  C9. Where no two distinct classes are subclasses of each other, \<^verbatim>\<open>a == other\<close> is true
  only if \<^verbatim>\<open>other\<close> is a model instance of the same class as \<^verbatim>\<open>a\<close>, and the \<^verbatim>\<open>_id\<close> of \<^verbatim>\<open>a\<close>
  and then the \<^verbatim>\<open>_id\<close> of \<^verbatim>\<open>other\<close> are read and are equal: the same value, or the same
  number. (An instance of a proper subclass on the right has its own \<^verbatim>\<open>__eq__\<close> asked, which
  refuses the left operand; on the left it refuses the right operand itself.)
\<close>

theorem py_eq_only_if_same_class_and_equal_id:
  assumes mro: "\<forall>c d. c \<in> set (c_mro (classes E d)) \<longrightarrow> d \<in> set (c_mro (classes E c)) \<longrightarrow> c = d"
      and eq: "py_eq E n a other s = (Inr True, s')"
  shows "\<exists>b x y s1. other = PObj b \<and> a < length (insts s) \<and> b < length (insts s) \<and>
           i_cls (insts s ! b) = i_cls (insts s ! a) \<and>
           get_id (run E n) E a s = (Inr x, s1) \<and>
           get_id (run E n) E b s1 = (Inr y, s') \<and>
           key_eq x y = Inr True \<and> (x = y \<or> (\<exists>k. py_num x = Some k \<and> py_num y = Some k))"
proof -
  have other: "\<exists>b. other = PObj b"
  proof (rule ccontr)
    assume "\<not> (\<exists>b. other = PObj b)"
    then have "py_eq E n a other = model_eq E n a other"
      by (cases other) (simp_all add: py_eq_def)
    with eq model_eq_True[of E n a other s s'] \<open>\<not> (\<exists>b. other = PObj b)\<close> show False by auto
  qed
  then obtain b where b: "other = PObj b" by blast
  from eq b have la: "a < length (insts s)" and lb: "b < length (insts s)"
    by (auto simp: py_eq_def thn_def get_inst_def split: if_splits)
  let ?i = "insts s ! a" and ?j = "insts s ! b"
  show ?thesis
  proof (cases "i_cls ?j \<noteq> i_cls ?i \<and> isinstance E ?j (i_cls ?i)")
    case True
    with eq b la lb have "model_eq E n b (PObj a) s = (Inr True, s')"
      by (simp add: py_eq_def thn_def get_inst_def)
    from model_eq_True[OF this] have "isinstance E ?i (i_cls ?j)" by auto
    with True mro have False by (auto simp: isinstance_def)
    then show ?thesis ..
  next
    case False
    with eq b la lb have m: "model_eq E n a (PObj b) s = (Inr True, s')"
      by (simp add: py_eq_def thn_def get_inst_def)
    from model_eq_True[OF m] obtain x y s1 where
      inst: "isinstance E ?j (i_cls ?i)"
      and x: "get_id (run E n) E a s = (Inr x, s1)"
      and y: "get_id (run E n) E b s1 = (Inr y, s')"
      and k: "key_eq x y = Inr True"
      by auto
    from False inst have c: "i_cls ?j = i_cls ?i" by auto
    from b la lb c x y k key_eq_True[OF k] show ?thesis by blast
  qed
qed

theorem py_eq_only_if_same_class_and_equal_id_witness:
  "fst (py_eq shape_env 2 0 (PObj 2) shape_state) = Inr True \<and>
   i_cls (insts shape_state ! 2) = i_cls (insts shape_state ! 0) \<and>
   fst (model_eq shape_env 2 0 (PObj 1) shape_state) = Inr True \<and>
   fst (py_eq shape_env 2 0 (PObj 1) shape_state) = Inr False \<and>
   fst (py_eq shape_env 2 1 (PObj 0) shape_state) = Inr False"
proof -
  have mro: "\<forall>c d. c \<in> set (c_mro (classes shape_env d)) \<longrightarrow> d \<in> set (c_mro (classes shape_env c)) \<longrightarrow> c = d"
    by (auto simp: shape_env_def split: if_splits)
  have f: "fst (py_eq shape_env 2 0 (PObj 2) shape_state) = Inr True"
    by code_simp
  then have h: "py_eq shape_env 2 0 (PObj 2) shape_state =
      (Inr True, snd (py_eq shape_env 2 0 (PObj 2) shape_state))"
    by (simp add: prod_eq_iff)
  have m: "fst (model_eq shape_env 2 0 (PObj 1) shape_state) = Inr True"
    by code_simp
  have g1: "fst (py_eq shape_env 2 0 (PObj 1) shape_state) = Inr False"
    by code_simp
  have g2: "fst (py_eq shape_env 2 1 (PObj 0) shape_state) = Inr False"
    by code_simp
  from py_eq_only_if_same_class_and_equal_id[OF mro h]
  have c: "i_cls (insts shape_state ! 2) = i_cls (insts shape_state ! 0)" by auto
  show ?thesis
    by (rule conjI[OF f conjI[OF c conjI[OF m conjI[OF g1 g2]]]])
qed

subsection \<open>Wrapped collections\<close>

lemma mapper_dict:
  "mapper E t ow (PDict kvs) s =
     (Inr (PObj (length (insts s))),
      upd_inst (length (insts s)) (\<lambda>j. j\<lparr>owner := Some ow\<rparr>) (snd (new_instance E t kvs s)))"
  by (simp add: mapper_def new_instance_def)


lemma mapper_frame:
  assumes "mapper E t ow x s = (r, s')"
  shows "log s' = log s \<and> sets s' = sets s @ drop (length (sets s)) (sets s') \<and>
         length (insts s) \<le> length (insts s') \<and>
         (\<forall>b < length (insts s). insts s' ! b = insts s ! b)"
  using assms
  by (cases x)
     (auto simp: mapper_def new_instance_def is_dict_def upd_inst_def thn_def get_inst_def
                 nth_append
           split: if_splits)

lemma mapper_keeps_ok:
  assumes "mapper E t ow x s = (r, s')"
  shows "live s y \<Longrightarrow> live s' y" "live s y \<Longrightarrow> relation_data_ok E t s' y = relation_data_ok E t s y"
  using mapper_frame[OF assms]
  by (cases y; auto simp: live_def relation_data_ok_def)+

lemma mapper_ok:
  "relation_data_ok E t s x \<Longrightarrow> \<exists>v s'. mapper E t ow x s = (Inr v, s')"
  by (cases x) (auto simp: relation_data_ok_def mapper_def new_instance_def thn_def get_inst_def)

lemma mapper_passes_instance:
  "b < length (insts s) \<Longrightarrow> isinstance E (insts s ! b) t \<Longrightarrow>
   mapper E t ow (PObj b) s = (Inr (PObj b), s)"
  by (simp add: mapper_def thn_def get_inst_def)

lemma mapper_rejects:
  "live s x \<Longrightarrow> \<not> relation_data_ok E t s x \<Longrightarrow> mapper E t ow x s = (Inl InvalidRelationData, s)"
  by (cases x) (auto simp: live_def relation_data_ok_def mapper_def thn_def get_inst_def)


lemma wrap_all_rejects:
  "list_all (live s) xs \<Longrightarrow> \<not> list_all (relation_data_ok E t s) xs \<Longrightarrow>
   fst (wrap_all E t ow xs s) = Inl InvalidRelationData"
proof (induction xs arbitrary: s)
  case Nil
  then show ?case by simp
next
  case (Cons x xs)
  show ?case
  proof (cases "relation_data_ok E t s x")
    case False
    with Cons.prems show ?thesis by (simp add: mapper_rejects)
  next
    case True
    from mapper_ok[OF True] obtain v s1 where m: "mapper E t ow x s = (Inr v, s1)" by blast
    from Cons.prems True mapper_keeps_ok[OF m]
    have "list_all (live s1) xs" "\<not> list_all (relation_data_ok E t s1) xs"
      by (auto simp: list_all_iff)
    from Cons.IH[OF this] m show ?thesis
      by (auto split: prod.splits sum.splits)
  qed
qed



lemma wl_getitem_slice_plain:
  "w < length (wlists W) \<Longrightarrow> slice_bounds (length (w_items (wlists W ! w))) i j = (lo, hi) \<Longrightarrow>
   take (hi - lo) (drop lo (w_items (wlists W ! w))) = sl \<Longrightarrow> \<not> list_ex is_dict sl \<Longrightarrow>
   wl_getitem E w (Slice i j) W = (Inr (PList sl), W)"
  by (simp add: wl_getitem_def Let_def)
















text \<open>
  C8, as amended. The wrapper returns an instance of the model class as it is and
  raises \<open>InvalidRelationData\<close> for a value that is neither a raw record nor such an
  instance. A full iteration wraps every element, so it raises when the list holds such
  a value; an access by slice wraps the slice only when the slice holds a raw record,
  and then raises when it also holds such a value, storing nothing. A slice without raw
  records and an access by index to an element that is no raw record return what is
  stored, unwrapped and without an error.
\<close>

theorem many_wrapper_rejects_at_wrap_time:
  "(b < length (insts s) \<and> isinstance E (insts s ! b) t \<longrightarrow>
      mapper E t ow (PObj b) s = (Inr (PObj b), s)) \<and>
   (live s x \<and> \<not> relation_data_ok E t s x \<longrightarrow>
      mapper E t ow x s = (Inl InvalidRelationData, s)) \<and>
   (w < length (wlists W) \<and> list_all (live (ms W)) (w_items (wlists W ! w)) \<and>
    \<not> list_all (relation_data_ok E (w_model (wlists W ! w)) (ms W)) (w_items (wlists W ! w)) \<longrightarrow>
      fst (wl_iterate E w W) = Inl InvalidRelationData) \<and>
   (w < length (wlists W) \<and> slice_bounds (length (w_items (wlists W ! w))) i j = (lo, hi) \<and>
    sl = take (hi - lo) (drop lo (w_items (wlists W ! w))) \<longrightarrow>
      (list_ex is_dict sl \<and> list_all (live (ms W)) sl \<and>
       \<not> list_all (relation_data_ok E (w_model (wlists W ! w)) (ms W)) sl \<longrightarrow>
         fst (wl_getitem E w (Slice i j) W) = Inl InvalidRelationData \<and>
         wlists (snd (wl_getitem E w (Slice i j) W)) = wlists W) \<and>
      (\<not> list_ex is_dict sl \<longrightarrow> wl_getitem E w (Slice i j) W = (Inr (PList sl), W))) \<and>
   (w < length (wlists W) \<and> p < length (w_items (wlists W ! w)) \<and>
    \<not> is_dict (w_items (wlists W ! w) ! p) \<longrightarrow>
      wl_getitem E w (Index (int p)) W = (Inr (w_items (wlists W ! w) ! p), W))"
proof (intro conjI impI)
  show "mapper E t ow (PObj b) s = (Inr (PObj b), s)"
    if "b < length (insts s) \<and> isinstance E (insts s ! b) t"
    using that by (simp add: mapper_passes_instance)
  show "mapper E t ow x s = (Inl InvalidRelationData, s)"
    if "live s x \<and> \<not> relation_data_ok E t s x"
    using that by (simp add: mapper_rejects)
  show "fst (wl_iterate E w W) = Inl InvalidRelationData"
    if h: "w < length (wlists W) \<and> list_all (live (ms W)) (w_items (wlists W ! w)) \<and>
        \<not> list_all (relation_data_ok E (w_model (wlists W ! w)) (ms W)) (w_items (wlists W ! w))"
  proof -
    have "fst (wrap_all E (w_model (wlists W ! w)) (w_owner (wlists W ! w))
                 (w_items (wlists W ! w)) (ms W)) = Inl InvalidRelationData"
      by (rule wrap_all_rejects) (use h in auto)
    with h show ?thesis
      by (cases "wrap_all E (w_model (wlists W ! w)) (w_owner (wlists W ! w))
                 (w_items (wlists W ! w)) (ms W)") (simp add: wl_iterate_def)
  qed
next
  assume a: "w < length (wlists W) \<and> slice_bounds (length (w_items (wlists W ! w))) i j = (lo, hi) \<and>
    sl = take (hi - lo) (drop lo (w_items (wlists W ! w)))"
  assume b: "list_ex is_dict sl \<and> list_all (live (ms W)) sl \<and>
       \<not> list_all (relation_data_ok E (w_model (wlists W ! w)) (ms W)) sl"
  from b wrap_all_rejects[of "ms W" sl E "w_model (wlists W ! w)" "w_owner (wlists W ! w)"]
  have r: "fst (wrap_all E (w_model (wlists W ! w)) (w_owner (wlists W ! w)) sl (ms W)) = Inl InvalidRelationData"
    by simp
  from a b r show "fst (wl_getitem E w (Slice i j) W) = Inl InvalidRelationData"
    by (auto simp: wl_getitem_def Let_def split: prod.splits sum.splits)
  from a b r show "wlists (snd (wl_getitem E w (Slice i j) W)) = wlists W"
    by (auto simp: wl_getitem_def Let_def split: prod.splits sum.splits)
next
  assume a: "w < length (wlists W) \<and> slice_bounds (length (w_items (wlists W ! w))) i j = (lo, hi) \<and>
    sl = take (hi - lo) (drop lo (w_items (wlists W ! w)))"
  assume "\<not> list_ex is_dict sl"
  with a show "wl_getitem E w (Slice i j) W = (Inr (PList sl), W)"
    by (simp add: wl_getitem_slice_plain)
next
  assume "w < length (wlists W) \<and> p < length (w_items (wlists W ! w)) \<and>
    \<not> is_dict (w_items (wlists W ! w) ! p)"
  then show "wl_getitem E w (Index (int p)) W = (Inr (w_items (wlists W ! w) ! p), W)"
    by (simp add: wl_getitem_def Let_def)
qed

theorem many_wrapper_rejects_at_wrap_time_witness:
  "live repo_state (PObj 1) \<and> isinstance repo_env (insts repo_state ! 1) ''Commit'' \<and>
   mapper repo_env ''Commit'' 0 (PObj 1) repo_state = (Inr (PObj 1), repo_state) \<and>
   \<not> relation_data_ok repo_env ''Commit'' repo_state (PInt 3) \<and>
   mapper repo_env ''Commit'' 0 (PInt 3) repo_state = (Inl InvalidRelationData, repo_state) \<and>
   fst (wl_iterate repo_env 0 bag_world) = Inl InvalidRelationData \<and>
   fst (wl_getitem repo_env 0 (Slice 0 2) bag_world) = Inl InvalidRelationData \<and>
   wl_getitem repo_env 0 (Slice 1 2) bag_world = (Inr (PList [PInt 3]), bag_world) \<and>
   wl_getitem repo_env 0 (Index 1) bag_world = (Inr (PInt 3), bag_world)"
proof -
  have inst: "1 < length (insts repo_state) \<and> isinstance repo_env (insts repo_state ! 1) ''Commit''"
    by code_simp
  have lv: "live repo_state (PObj 1)" "live repo_state (PInt 3)"
    by (simp_all add: live_def repo_state_def)
  have bad: "\<not> relation_data_ok repo_env ''Commit'' repo_state (PInt 3)"
    by (simp add: relation_data_ok_def)
  have w: "0 < length (wlists bag_world)" by (simp add: bag_world_def)
  have items: "w_items (wlists bag_world ! 0) =
      [PDict [(''sha'', PStr ''abc'')], PInt 3, PDict [(''sha'', PStr ''def'')]]"
    "ms bag_world = repo_state" "w_model (wlists bag_world ! 0) = ''Commit''"
    by (simp_all add: bag_world_def)
  have all: "list_all (live (ms bag_world)) (w_items (wlists bag_world ! 0))"
    "\<not> list_all (relation_data_ok repo_env (w_model (wlists bag_world ! 0)) (ms bag_world))
         (w_items (wlists bag_world ! 0))"
    by (simp_all add: items live_def relation_data_ok_def)
  have b02: "slice_bounds (length (w_items (wlists bag_world ! 0))) 0 2 = (0, 2)"
    and b12: "slice_bounds (length (w_items (wlists bag_world ! 0))) 1 2 = (1, 2)"
    by (simp_all add: items slice_bounds_def slice_bound_def)
  have sl02: "[PDict [(''sha'', PStr ''abc'')], PInt 3] = take (2 - 0) (drop 0 (w_items (wlists bag_world ! 0)))"
    and sl12: "[PInt 3] = take (2 - 1) (drop 1 (w_items (wlists bag_world ! 0)))"
    by (simp_all add: items)
  have c02: "list_ex is_dict [PDict [(''sha'', PStr ''abc'')], PInt 3] \<and>
      list_all (live (ms bag_world)) [PDict [(''sha'', PStr ''abc'')], PInt 3] \<and>
      \<not> list_all (relation_data_ok repo_env (w_model (wlists bag_world ! 0)) (ms bag_world))
           [PDict [(''sha'', PStr ''abc'')], PInt 3]"
    by (simp add: is_dict_def live_def relation_data_ok_def)
  have c12: "\<not> list_ex is_dict [PInt 3]" by (simp add: is_dict_def)
  have nd: "1 < length (w_items (wlists bag_world ! 0)) \<and> \<not> is_dict (w_items (wlists bag_world ! 0) ! 1)"
    by (simp add: items is_dict_def)
  note T = many_wrapper_rejects_at_wrap_time
  from T[where b = 1 and s = repo_state and E = repo_env and t = "''Commit''" and ow = 0] inst
  have 1: "mapper repo_env ''Commit'' 0 (PObj 1) repo_state = (Inr (PObj 1), repo_state)" by blast
  from T[where s = repo_state and E = repo_env and t = "''Commit''" and x = "PInt 3" and ow = 0] lv bad
  have 2: "mapper repo_env ''Commit'' 0 (PInt 3) repo_state = (Inl InvalidRelationData, repo_state)"
    by blast
  from T[where E = repo_env and w = 0 and W = bag_world] w all
  have 3: "fst (wl_iterate repo_env 0 bag_world) = Inl InvalidRelationData" by blast
  from T[where E = repo_env and w = 0 and W = bag_world and i = 0 and j = 2 and lo = 0 and hi = 2
           and sl = "[PDict [(''sha'', PStr ''abc'')], PInt 3]"] w b02 sl02 c02
  have 4: "fst (wl_getitem repo_env 0 (Slice 0 2) bag_world) = Inl InvalidRelationData" by blast
  from T[where E = repo_env and w = 0 and W = bag_world and i = 1 and j = 2 and lo = 1 and hi = 2
           and sl = "[PInt 3]" and p = 1]
    w b12 sl12 c12 nd
  have 5: "wl_getitem repo_env 0 (Slice 1 2) bag_world = (Inr (PList [PInt 3]), bag_world)"
    and 6: "wl_getitem repo_env 0 (Index (int 1)) bag_world = (Inr (w_items (wlists bag_world ! 0) ! 1), bag_world)"
    by blast+
  from 6 have six: "wl_getitem repo_env 0 (Index 1) bag_world = (Inr (PInt 3), bag_world)"
    by (simp add: items)
  from inst lv bad 1 2 3 4 5 six show ?thesis by blast
qed

text \<open>
  C8 as stated has the error raised on element access too. The element at index 1 is the
  number 3, which the wrapper rejects; \<^verbatim>\<open>collection[1]\<close> returns it.
\<close>

theorem element_access_returns_invalid_element:
  "fst (mapper repo_env ''Commit'' 0 (PInt 3) repo_state) = Inl InvalidRelationData \<and>
   w_items (wlists bag_world ! 0) ! 1 = PInt 3 \<and>
   fst (wl_getitem repo_env 0 (Index 1) bag_world) = Inr (PInt 3)"
  by code_simp

subsection \<open>Relation caches\<close>

lemma many_get_hit:
  "many_cache W (m_id r, a) = Some c \<Longrightarrow> many_get E n r a W = (Inr c, W)"
  by (simp add: many_get_def)

lemma many_get_miss:
  assumes "many_cache W (m_id r, a) = None" "many_get E n r a W = (res, W')"
  shows "wlists W' = wlists W @ drop (length (wlists W)) (wlists W') \<and>
         lazies W' = lazies W @ drop (length (lazies W)) (lazies W') \<and>
         foreign_cache W' = foreign_cache W \<and>
         (case res of
            Inl e \<Rightarrow> many_cache W' = many_cache W
          | Inr c \<Rightarrow>
              many_cache W' = (many_cache W)((m_id r, a) \<mapsto> c) \<and>
              c = (if m_lazy r then Lazy (length (lazies W)) else Wrapped (length (wlists W))) \<and>
              length (lazies W') = length (lazies W) + (if m_lazy r then 1 else 0) \<and>
              length (wlists W') = length (wlists W) + (if m_lazy r then 0 else 1))"
  using assms
  by (auto simp: many_get_def split: prod.splits sum.splits if_splits)

lemma many_get_again:
  assumes "many_get E n r a W = (Inr c, W')"
  shows "many_get E n' r a W' = (Inr c, W')"
proof (cases "many_cache W (m_id r, a)")
  case None
  from many_get_miss[OF None assms] show ?thesis
    by (simp add: many_get_hit)
next
  case (Some d)
  with assms show ?thesis by (simp add: many_get_def)
qed

lemma many_get_slots:
  assumes "many_get E n r a W = (res, W')"
  shows "(\<forall>k. k \<noteq> (m_id r, a) \<longrightarrow> many_cache W' k = many_cache W k) \<and>
         (\<forall>c. many_cache W (m_id r, a) = Some c \<longrightarrow> many_cache W' (m_id r, a) = Some c) \<and>
         foreign_cache W' = foreign_cache W"
proof (cases "many_cache W (m_id r, a)")
  case None
  from many_get_miss[OF None assms] None show ?thesis
    by (cases res) auto
next
  case (Some d)
  with assms show ?thesis by (simp add: many_get_def)
qed

lemma many_get_distinct_owners:
  assumes a: "many_cache W (m_id r, a) = None" and b: "many_cache W (m_id r, b) = None"
    and ne: "a \<noteq> b"
    and ga: "many_get E n r a W = (Inr ca, W1)"
    and gb: "many_get E n' r b W1 = (Inr cb, W2)"
  shows "ca \<noteq> cb \<and> many_get E k r a W2 = (Inr ca, W2) \<and> many_get E k r b W2 = (Inr cb, W2)"
proof -
  note A = many_get_miss[OF a ga]
  from many_get_slots[OF ga] b ne have b1: "many_cache W1 (m_id r, b) = None" by auto
  note B = many_get_miss[OF b1 gb]
  from A B have "ca \<noteq> cb" by (auto split: if_splits)
  moreover from A have "many_cache W1 (m_id r, a) = Some ca" by simp
  with many_get_slots[OF gb] ne have "many_cache W2 (m_id r, a) = Some ca" by auto
  then have "many_get E k r a W2 = (Inr ca, W2)" by (rule many_get_hit)
  moreover have "many_get E k r b W2 = (Inr cb, W2)" using gb by (rule many_get_again)
  ultimately show ?thesis by blast
qed

lemma py_getattr_static: "py_getattr E n a name s = (r, s') \<Longrightarrow> static_rel s s'"
  unfolding py_getattr_def by (rule run_static)

lemma ext_static_run: "ext static_rel s0 (run E n c)"
  by (rule ext_rc[OF step_closed_static rc_ok_run[OF step_closed_static]])

lemma ext_extract_ids:
  assumes R: "step_closed R" and rc: "rc_ok R rc"
  shows "ext R s0 (extract_ids rc a fp ks)"
proof (induction ks)
  case Nil
  show ?case by (rule extI) simp
next
  case (Cons k ks)
  show ?case
  proof (rule extI)
    fix s r s'
    assume 0: "R s0 s" and e: "extract_ids rc a fp (k # ks) s = (r, s')"
    obtain r1 s1 where h: "(case map_of fp k of Some v \<Rightarrow> (Inr v, s) | None \<Rightarrow> rc (GetAttr a k) s) = (r1, s1)"
      by fastforce
    have 1: "R s0 s1"
    proof (cases "map_of fp k")
      case None
      with h have "rc (GetAttr a k) s = (r1, s1)" by simp
      from extD[OF ext_rc[OF R rc] 0 this] show ?thesis .
    next
      case (Some v)
      with h 0 show ?thesis by simp
    qed
    show "R s0 s'"
    proof (cases r1)
      case (Inl e1)
      with e h 1 show ?thesis by simp
    next
      case (Inr v)
      obtain r2 s2 where t: "extract_ids rc a fp ks s1 = (r2, s2)" by fastforce
      from extD[OF Cons.IH 1 t] have "R s0 s2" .
      with e h Inr t show ?thesis by (auto split: sum.splits)
    qed
  qed
qed

lemma default_extract_static:
  "default_extract E n t kp a s = (r, s') \<Longrightarrow> static_rel s s'"
proof -
  note S = step_closed_static and RC = rc_ok_run[OF step_closed_static]
  have "ext static_rel s (default_extract E n t kp a)"
    unfolding default_extract_def
    apply (intro ext_thn ext_footprint[OF S RC] ext_extract_ids[OF S RC])
    apply (auto split: option.split intro!: ext_raise ext_thn ext_rc[OF S RC])
    apply (rule extI)
    apply (auto split: option.splits sum.splits)
    done
  then show "default_extract E n t kp a s = (r, s') \<Longrightarrow> static_rel s s'"
    by (rule extD) (rule sc_refl[OF S])
qed

lemma read_Inr:
  assumes "read E cls args kw s = (Inr v, s')"
  shows "v = PNone \<and> insts s' = insts s \<or>
         v = PObj (length (insts s)) \<and> length (insts s') = Suc (length (insts s))"
  using assms
  by (auto simp: read_def Let_def thn_def rest_call_def new_instance_def
           split: sum.splits prod.splits if_splits pyval.splits)

lemma foreign_embedded_Inr:
  assumes "foreign_embedded E n f a s = (Inr b, s')"
  shows "b = length (insts s) \<and> length (insts s') = Suc (length (insts s))"
proof -
  from assms obtain d s0 where g: "py_getattr E n a (f_key_property f) s = (Inr d, s0)"
    and rest: "thn (get_inst a) (\<lambda>i s.
         case d of
           PDict kvs \<Rightarrow>
             (case new_instance E (f_model f) kvs s of
                (b, s1) \<Rightarrow>
                  (Inr b,
                   upd_inst b (\<lambda>j. j\<lparr>i_auth := Some (instance_auth (classes E) i),
                                      owner := Some a\<rparr>) s1))
         | POpaque k \<Rightarrow> (Inl Unmodelled, s)
         | _ \<Rightarrow> (Inl TypeError, s)) s0 = (Inr b, s')"
    unfolding foreign_embedded_def thn_Inr[of "py_getattr E n a (f_key_property f)"] by blast
  from py_getattr_static[OF g] have "length (insts s0) = length (insts s)"
    by (simp add: static_rel_def)
  with rest show ?thesis
    by (auto simp: thn_def get_inst_def new_instance_def split: if_splits pyval.splits)
qed

lemma foreign_fetch_Inr:
  assumes "\<not> is_custom (f_kind f)" "foreign_fetch E n f a s = (Inr v, s')"
  shows "v = PNone \<and> length (insts s') = length (insts s) \<or>
         v = PObj (length (insts s)) \<and> length (insts s') = Suc (length (insts s))"
proof (cases "f_kind f")
  case (DefaultKey kp)
  with assms(2) obtain ids s1 where d: "default_extract E n (f_model f) kp a s = (Inr ids, s1)"
    and rest: "thn (get_inst a) (\<lambda>i.
          model_get E (f_model f) ids (Some (instance_auth (classes E) i))) s1 = (Inr v, s')"
    unfolding foreign_fetch_def thn_Inr[of "case f_kind f of CustomKey g \<Rightarrow> g n a
          | DefaultKey kp \<Rightarrow> default_extract E n (f_model f) kp a
          | Embedded \<Rightarrow> raise TypeError"]
    by auto
  from default_extract_static[OF d] have l: "length (insts s1) = length (insts s)"
    by (simp add: static_rel_def)
  from rest obtain i where "read E (f_model f) ids (Some (instance_auth (classes E) i)) s1 = (Inr v, s')"
    unfolding thn_Inr by (auto simp: model_get_def get_inst_def split: if_splits)
  from read_Inr[OF this] l show ?thesis by auto
next
  case Embedded
  with assms(2) show ?thesis by (simp add: foreign_fetch_def thn_def raise_def)
next
  case (CustomKey g)
  with assms(1) show ?thesis by (simp add: is_custom_def)
qed

lemma foreign_get_hit:
  "foreign_cache W (f_id f, a) = Some v \<Longrightarrow> foreign_get E n f a W = (Inr v, W)"
  by (simp add: foreign_get_def)

lemma foreign_get_miss:
  assumes "foreign_cache W (f_id f, a) = None" "foreign_get E n f a W = (res, W')"
  shows "many_cache W' = many_cache W \<and> wlists W' = wlists W \<and> lazies W' = lazies W \<and>
         (\<forall>k. k \<noteq> (f_id f, a) \<longrightarrow> foreign_cache W' k = foreign_cache W k) \<and>
         (\<forall>v. res = Inr v \<longrightarrow> foreign_cache W' (f_id f, a) = Some v \<and> (\<exists>b. v = PObj b))"
  using assms
  by (cases "f_kind f")
     (auto simp: foreign_get_def split: prod.splits sum.splits pyval.splits)

lemma foreign_get_fresh:
  assumes "foreign_cache W (f_id f, a) = None" "\<not> is_custom (f_kind f)"
    "foreign_get E n f a W = (Inr v, W')"
  shows "v = PObj (length (insts (ms W))) \<and> length (insts (ms W')) = Suc (length (insts (ms W)))"
proof (cases "f_kind f")
  case Embedded
  with assms obtain b s1 where e: "foreign_embedded E n f a (ms W) = (Inr b, s1)"
    and v: "v = PObj b" and W': "ms W' = s1"
    by (auto simp: foreign_get_def split: prod.splits sum.splits)
  from foreign_embedded_Inr[OF e] v W' show ?thesis by simp
next
  case (DefaultKey kp)
  with assms obtain b s1 where e: "foreign_fetch E n f a (ms W) = (Inr (PObj b), s1)"
    and v: "v = PObj b" and W': "ms W' = upd_inst b (\<lambda>j. j\<lparr>owner := Some a\<rparr>) s1"
    by (auto simp: foreign_get_def split: prod.splits sum.splits pyval.splits)
  from foreign_fetch_Inr[OF assms(2) e] v W' show ?thesis by simp
next
  case (CustomKey g)
  with assms(2) show ?thesis by (simp add: is_custom_def)
qed

lemma foreign_get_again:
  assumes "foreign_get E n f a W = (Inr v, W')"
  shows "foreign_get E n' f a W' = (Inr v, W')"
proof (cases "foreign_cache W (f_id f, a)")
  case None
  from foreign_get_miss[OF None assms] show ?thesis
    by (simp add: foreign_get_hit)
next
  case (Some d)
  with assms show ?thesis by (simp add: foreign_get_def)
qed

lemma foreign_get_slots:
  assumes "foreign_get E n f a W = (res, W')"
  shows "(\<forall>k. k \<noteq> (f_id f, a) \<longrightarrow> foreign_cache W' k = foreign_cache W k) \<and>
         (\<forall>v. foreign_cache W (f_id f, a) = Some v \<longrightarrow> foreign_cache W' (f_id f, a) = Some v) \<and>
         many_cache W' = many_cache W"
proof (cases "foreign_cache W (f_id f, a)")
  case None
  from foreign_get_miss[OF None assms] None show ?thesis by auto
next
  case (Some d)
  with assms show ?thesis by (simp add: foreign_get_def)
qed

lemma foreign_get_distinct_owners:
  assumes a: "foreign_cache W (f_id f, a) = None" and b: "foreign_cache W (f_id f, b) = None"
    and ne: "a \<noteq> b" and nc: "\<not> is_custom (f_kind f)"
    and ga: "foreign_get E n f a W = (Inr va, W1)"
    and gb: "foreign_get E n' f b W1 = (Inr vb, W2)"
  shows "va \<noteq> vb \<and> foreign_get E k f a W2 = (Inr va, W2) \<and> foreign_get E k f b W2 = (Inr vb, W2)"
proof -
  note A = foreign_get_fresh[OF a nc ga]
  from foreign_get_slots[OF ga] b ne have b1: "foreign_cache W1 (f_id f, b) = None" by auto
  note B = foreign_get_fresh[OF b1 nc gb]
  from A B have "va \<noteq> vb" by auto
  moreover from foreign_get_miss[OF a ga] have "foreign_cache W1 (f_id f, a) = Some va" by simp
  with foreign_get_slots[OF gb] ne have "foreign_cache W2 (f_id f, a) = Some va" by auto
  then have "foreign_get E k f a W2 = (Inr va, W2)" by (rule foreign_get_hit)
  moreover have "foreign_get E k f b W2 = (Inr vb, W2)" using gb by (rule foreign_get_again)
  ultimately show ?thesis by blast
qed

text \<open>
  C5. For a \<^verbatim>\<open>Many\<close> field: an access that returns a collection is followed, on the same
  owner, by accesses that return the same object and change nothing; an access, whatever
  its outcome, writes no slot of any cache but the one of its own descriptor and owner,
  and leaves an entry that exists as it is; and when two distinct owners are resolved
  one after the other from a state that has an entry for neither, they get two distinct
  objects, each of which its owner gets again afterwards. The same holds for a
  \<^verbatim>\<open>Foreign\<close> field (the two related objects are shown distinct where the key does not
  come from a caller's extractor).
\<close>

theorem relation_cache_per_owner:
  "(many_get E n r a W = (Inr c, W1) \<longrightarrow> many_get E n' r a W1 = (Inr c, W1)) \<and>
   (many_get E n r a W = (mres, W1) \<longrightarrow>
      (\<forall>k. k \<noteq> (m_id r, a) \<longrightarrow> many_cache W1 k = many_cache W k) \<and>
      (\<forall>c. many_cache W (m_id r, a) = Some c \<longrightarrow> many_cache W1 (m_id r, a) = Some c) \<and>
      foreign_cache W1 = foreign_cache W) \<and>
   (many_cache W (m_id r, a) = None \<and> many_cache W (m_id r, b) = None \<and> a \<noteq> b \<and>
    many_get E n r a W = (Inr c, W1) \<and> many_get E n' r b W1 = (Inr c', W2) \<longrightarrow>
      c \<noteq> c' \<and> many_get E k r a W2 = (Inr c, W2) \<and> many_get E k r b W2 = (Inr c', W2)) \<and>
   (foreign_get E n f a W = (Inr v, W1) \<longrightarrow> foreign_get E n' f a W1 = (Inr v, W1)) \<and>
   (foreign_get E n f a W = (fres, W1) \<longrightarrow>
      (\<forall>k. k \<noteq> (f_id f, a) \<longrightarrow> foreign_cache W1 k = foreign_cache W k) \<and>
      (\<forall>v. foreign_cache W (f_id f, a) = Some v \<longrightarrow> foreign_cache W1 (f_id f, a) = Some v) \<and>
      many_cache W1 = many_cache W) \<and>
   (foreign_cache W (f_id f, a) = None \<and> foreign_cache W (f_id f, b) = None \<and> a \<noteq> b \<and>
    \<not> is_custom (f_kind f) \<and>
    foreign_get E n f a W = (Inr v, W1) \<and> foreign_get E n' f b W1 = (Inr v', W2) \<longrightarrow>
      v \<noteq> v' \<and> foreign_get E k f a W2 = (Inr v, W2) \<and> foreign_get E k f b W2 = (Inr v', W2))"
proof -
  have 1: "many_get E n r a W = (Inr c, W1) \<longrightarrow> many_get E n' r a W1 = (Inr c, W1)"
    using many_get_again by blast
  have 2: "many_get E n r a W = (mres, W1) \<longrightarrow>
      (\<forall>k. k \<noteq> (m_id r, a) \<longrightarrow> many_cache W1 k = many_cache W k) \<and>
      (\<forall>c. many_cache W (m_id r, a) = Some c \<longrightarrow> many_cache W1 (m_id r, a) = Some c) \<and>
      foreign_cache W1 = foreign_cache W"
    using many_get_slots by blast
  have 3: "many_cache W (m_id r, a) = None \<and> many_cache W (m_id r, b) = None \<and> a \<noteq> b \<and>
    many_get E n r a W = (Inr c, W1) \<and> many_get E n' r b W1 = (Inr c', W2) \<longrightarrow>
      c \<noteq> c' \<and> many_get E k r a W2 = (Inr c, W2) \<and> many_get E k r b W2 = (Inr c', W2)"
    using many_get_distinct_owners[of W r a b E n c W1 n' c' W2 k] by blast
  have 4: "foreign_get E n f a W = (Inr v, W1) \<longrightarrow> foreign_get E n' f a W1 = (Inr v, W1)"
    using foreign_get_again by blast
  have 5: "foreign_get E n f a W = (fres, W1) \<longrightarrow>
      (\<forall>k. k \<noteq> (f_id f, a) \<longrightarrow> foreign_cache W1 k = foreign_cache W k) \<and>
      (\<forall>v. foreign_cache W (f_id f, a) = Some v \<longrightarrow> foreign_cache W1 (f_id f, a) = Some v) \<and>
      many_cache W1 = many_cache W"
    using foreign_get_slots by blast
  have 6: "foreign_cache W (f_id f, a) = None \<and> foreign_cache W (f_id f, b) = None \<and> a \<noteq> b \<and>
    \<not> is_custom (f_kind f) \<and>
    foreign_get E n f a W = (Inr v, W1) \<and> foreign_get E n' f b W1 = (Inr v', W2) \<longrightarrow>
      v \<noteq> v' \<and> foreign_get E k f a W2 = (Inr v, W2) \<and> foreign_get E k f b W2 = (Inr v', W2)"
    using foreign_get_distinct_owners[of W f a b E n v W1 n' v' W2 k] by blast
  show ?thesis
    by (rule conjI[OF 1 conjI[OF 2 conjI[OF 3 conjI[OF 4 conjI[OF 5 6]]]]])
qed

theorem relation_cache_per_owner_witness:
  "fst (many_get repo_env 3 comments_rel 1 pair_world) = Inr (Wrapped 0) \<and>
   fst (many_get repo_env 3 comments_rel 2 (snd (many_get repo_env 3 comments_rel 1 pair_world))) =
     Inr (Wrapped 1) \<and>
   many_get repo_env 0 comments_rel 1
     (snd (many_get repo_env 3 comments_rel 2 (snd (many_get repo_env 3 comments_rel 1 pair_world)))) =
     (Inr (Wrapped 0),
      snd (many_get repo_env 3 comments_rel 2 (snd (many_get repo_env 3 comments_rel 1 pair_world)))) \<and>
   fst (foreign_get repo_env 3 author_rel 1 pair_world) = Inr (PObj 3) \<and>
   fst (foreign_get repo_env 3 author_rel 2 (snd (foreign_get repo_env 3 author_rel 1 pair_world))) =
     Inr (PObj 4) \<and>
   foreign_get repo_env 0 author_rel 1
     (snd (foreign_get repo_env 3 author_rel 2 (snd (foreign_get repo_env 3 author_rel 1 pair_world)))) =
     (Inr (PObj 3),
      snd (foreign_get repo_env 3 author_rel 2 (snd (foreign_get repo_env 3 author_rel 1 pair_world))))"
proof -
  let ?W1 = "snd (many_get repo_env 3 comments_rel 1 pair_world)"
  let ?W2 = "snd (many_get repo_env 3 comments_rel 2 ?W1)"
  let ?V1 = "snd (foreign_get repo_env 3 author_rel 1 pair_world)"
  let ?V2 = "snd (foreign_get repo_env 3 author_rel 2 ?V1)"
  have m1: "fst (many_get repo_env 3 comments_rel 1 pair_world) = Inr (Wrapped 0)"
    by code_simp
  have m2: "fst (many_get repo_env 3 comments_rel 2 ?W1) = Inr (Wrapped 1)"
    by code_simp
  have f1: "fst (foreign_get repo_env 3 author_rel 1 pair_world) = Inr (PObj 3)"
    by code_simp
  have f2: "fst (foreign_get repo_env 3 author_rel 2 ?V1) = Inr (PObj 4)"
    by code_simp
  from m1 have M1: "many_get repo_env 3 comments_rel 1 pair_world = (Inr (Wrapped 0), ?W1)"
    by (simp add: prod_eq_iff)
  from m2 have M2: "many_get repo_env 3 comments_rel 2 ?W1 = (Inr (Wrapped 1), ?W2)"
    by (simp add: prod_eq_iff)
  from f1 have F1: "foreign_get repo_env 3 author_rel 1 pair_world = (Inr (PObj 3), ?V1)"
    by (simp add: prod_eq_iff)
  from f2 have F2: "foreign_get repo_env 3 author_rel 2 ?V1 = (Inr (PObj 4), ?V2)"
    by (simp add: prod_eq_iff)
  have none: "many_cache pair_world (m_id comments_rel, 1) = None"
    "many_cache pair_world (m_id comments_rel, 2) = None"
    "foreign_cache pair_world (f_id author_rel, 1) = None"
    "foreign_cache pair_world (f_id author_rel, 2) = None"
    "\<not> is_custom (f_kind author_rel)"
    by (simp_all add: pair_world_def author_rel_def is_custom_def)
  have ne: "(1::nat) \<noteq> 2" by simp
  note T = relation_cache_per_owner[where E = repo_env and n = 3 and n' = 3 and k = 0
      and r = comments_rel and f = author_rel and a = 1 and b = 2 and W = pair_world]
  from T[where c = "Wrapped 0" and c' = "Wrapped 1" and ?W1.0 = ?W1 and ?W2.0 = ?W2] none ne M1 M2
  have A: "many_get repo_env 0 comments_rel 1 ?W2 = (Inr (Wrapped 0), ?W2)"
    by blast
  from T[where v = "PObj 3" and v' = "PObj 4" and ?W1.0 = ?V1 and ?W2.0 = ?V2] none ne F1 F2
  have B: "foreign_get repo_env 0 author_rel 1 ?V2 = (Inr (PObj 3), ?V2)"
    by blast
  from m1 m2 f1 f2 A B show ?thesis by blast
qed

subsection \<open>Lazy collections\<close>

lemma grows_refl: "grows s s"
  by (simp add: grows_def)

lemma grows_trans: "grows s t \<Longrightarrow> grows t u \<Longrightarrow> grows s u"
  by (auto simp: grows_def)

lemma grows_log: "insts t = insts s \<Longrightarrow> grows s t"
  by (simp add: grows_def)

lemma mapper_grows: "mapper E c ow x s = (r, s') \<Longrightarrow> grows s s' \<and> log s' = log s"
  using mapper_frame[of E c ow x s r s'] by (auto simp: grows_def)

lemma fetcher_cases:
  assumes "fetcher E r ow url s = (res, s')"
  shows "(\<not> ow < length (insts s) \<and> res = Inl BadReference \<and> s' = s) \<or>
         (ow < length (insts s) \<and>
          s' = s\<lparr>log := log s @ [Request (m_model r) ''GET'' url
                                   (instance_auth (classes E) (insts s ! ow)) None False]\<rparr> \<and>
          res = (case server E (log s) (Request (m_model r) ''GET'' url
                                   (instance_auth (classes E) (insts s ! ow)) None False) of
                   Inl e \<Rightarrow> Inl e
                 | Inr (data, new_url) \<Rightarrow>
                     (case sanitize_data r data of
                        Inl e \<Rightarrow> Inl e
                      | Inr d \<Rightarrow> Inr (d, if truthy new_url then Some new_url else None))))"
  using assms
  by (auto simp: fetcher_def thn_def get_inst_def rest_call_def
           split: if_splits sum.splits prod.splits)

lemma fetcher_grows: "fetcher E r ow url s = (res, s') \<Longrightarrow> grows s s'"
  by (drule fetcher_cases) (auto simp: grows_def)

lemma instance_auth_grows:
  "grows s t \<Longrightarrow> b < length (insts s) \<Longrightarrow>
   instance_auth ct (insts t ! b) = instance_auth ct (insts s ! b)"
proof -
  assume g: "grows s t" and b: "b < length (insts s)"
  from g b have "i_cls (insts t ! b) = i_cls (insts s ! b)" "i_auth (insts t ! b) = i_auth (insts s ! b)"
    by (simp_all add: grows_def)
  thus ?thesis by (simp add: instance_auth_def split: option.splits)
qed

lemma mapper_two:
  assumes s: "mapper E c ow x s = (r, s')"
      and t: "mapper E c ow x t = (r', t')"
      and g: "grows s t"
      and nb: "r \<noteq> Inl BadReference"
  shows "map_sum id (\<lambda>v. ()) r' = map_sum id (\<lambda>v. ()) r"
  using assms
  by (cases x)
     (auto simp: mapper_def new_instance_def thn_def get_inst_def grows_def isinstance_def
           split: if_splits)

lemma lazy_next_Some_grows:
  "lazy_next k E it s = Some (r, it', s') \<Longrightarrow> grows s s'"
proof (induction k E it s arbitrary: r it' s' rule: lazy_next.induct)
  case (1 k E it s)
  show ?case
  proof (cases "it_buf it")
    case (Cons x rest)
    obtain rm sm where m: "mapper E (m_model (it_rel it)) (it_owner it) x s = (rm, sm)"
      by (cases "mapper E (m_model (it_rel it)) (it_owner it) x s")
    from "1.prems" Cons m have "s' = sm"
      by (cases rm) (auto simp: lazy_next.simps[of k E it s])
    with mapper_grows[OF m] show ?thesis by simp
  next
    case Nil
    show ?thesis
    proof (cases "it_fetcher it")
      case None
      with "1.prems" Nil show ?thesis by (simp add: lazy_next.simps[of k E it s] grows_refl)
    next
      case (Some url)
      show ?thesis
      proof (cases k)
        case 0
        with "1.prems" Nil Some show ?thesis by (simp add: lazy_next.simps[of k E it s])
      next
        case (Suc k')
        obtain rf sf where f: "fetcher E (it_rel it) (it_owner it) url s = (rf, sf)"
          by (cases "fetcher E (it_rel it) (it_owner it) url s")
        note gf = fetcher_grows[OF f]
        show ?thesis
        proof (cases rf)
          case (Inl e)
          with "1.prems" Nil Some Suc f have "s' = sf"
            by (simp add: lazy_next.simps[of k E it s])
          with gf show ?thesis by simp
        next
          case (Inr df)
          obtain d f' where df: "df = (d, f')" by (cases df)
          show ?thesis
          proof (cases "py_iter d")
            case (Inl e)
            with "1.prems" Nil Some Suc f Inr df have "s' = sf"
              by (simp add: lazy_next.simps[of k E it s])
            with gf show ?thesis by simp
          next
            case (Inr items)
            from "1.prems" Nil Some Suc f \<open>rf = Inr df\<close> df Inr
            have rec: "lazy_next k' E (it\<lparr>it_fetcher := f', it_buf := items\<rparr>) sf = Some (r, it', s')"
              by (simp add: lazy_next.simps[of k E it s])
            have "grows sf s'"
              by (rule "1.IH"[OF Nil Some Suc f[symmetric] \<open>rf = Inr df\<close> df[symmetric] Inr rec])
            with gf show ?thesis by (rule grows_trans)
          qed
        qed
      qed
    qed
  qed
qed

lemma fetcher_two:
  assumes s: "fetcher E r ow url s = (rf, sf)"
      and t: "fetcher E r ow url t = (rf', tf)"
      and g: "grows s t"
      and st: "\<forall>h h'. server E h = server E h'"
      and nb: "rf \<noteq> Inl BadReference"
  shows "rf' = rf \<and> grows sf tf \<and> (\<exists>rq. log sf = log s @ [rq] \<and> log tf = log t @ [rq])"
proof -
  let ?rq = "\<lambda>u. Request (m_model r) ''GET'' url (instance_auth (classes E) (insts u ! ow)) None False"
  from fetcher_cases[OF s] nb have ow: "ow < length (insts s)" by auto
  with g have owt: "ow < length (insts t)" by (simp add: grows_def)
  from instance_auth_grows[OF g ow] have rq: "?rq t = ?rq s" by simp
  from st have sv: "server E (log t) = server E (log s)" by blast
  from fetcher_cases[OF s] ow have 1: "sf = s\<lparr>log := log s @ [?rq s]\<rparr>"
    and 2: "rf = (case server E (log s) (?rq s) of
                   Inl e \<Rightarrow> Inl e
                 | Inr (data, new_url) \<Rightarrow>
                     (case sanitize_data r data of
                        Inl e \<Rightarrow> Inl e
                      | Inr d \<Rightarrow> Inr (d, if truthy new_url then Some new_url else None)))"
    by auto
  from fetcher_cases[OF t] owt have 3: "tf = t\<lparr>log := log t @ [?rq t]\<rparr>"
    and 4: "rf' = (case server E (log t) (?rq t) of
                   Inl e \<Rightarrow> Inl e
                 | Inr (data, new_url) \<Rightarrow>
                     (case sanitize_data r data of
                        Inl e \<Rightarrow> Inl e
                      | Inr d \<Rightarrow> Inr (d, if truthy new_url then Some new_url else None)))"
    by auto
  from 2 4 rq sv have "rf' = rf" by simp
  moreover from g 1 3 have "grows sf tf" by (simp add: grows_def)
  moreover from 1 3 rq have "log sf = log s @ [?rq s] \<and> log tf = log t @ [?rq s]" by simp
  ultimately show ?thesis by blast
qed

lemma lazy_next_two:
  "lazy_next k E it s = Some (r, it1, s1) \<Longrightarrow> lazy_next k' E it t = Some (r', it1', t1) \<Longrightarrow>
   grows s t \<Longrightarrow> r \<noteq> Inl BadReference \<Longrightarrow> \<forall>h h'. server E h = server E h' \<Longrightarrow>
         it1' = it1 \<and> (\<exists>xs. log s1 = log s @ xs \<and> log t1 = log t @ xs) \<and>
         map_sum id (\<lambda>v. v = None) r' = map_sum id (\<lambda>v. v = None) r"
proof (induction k E it s arbitrary: k' t rule: lazy_next.induct)
  case (1 k E it s)
  note run_s = "1.prems"(1) and run_t = "1.prems"(2) and g = "1.prems"(3) and nb = "1.prems"(4)
    and st = "1.prems"(5)
  show ?case
  proof (cases "it_buf it")
    case (Cons x rest)
    obtain rm sm where m: "mapper E (m_model (it_rel it)) (it_owner it) x s = (rm, sm)"
      by (cases "mapper E (m_model (it_rel it)) (it_owner it) x s")
    obtain rm' tm where m': "mapper E (m_model (it_rel it)) (it_owner it) x t = (rm', tm)"
      by (cases "mapper E (m_model (it_rel it)) (it_owner it) x t")
    from run_s Cons m have a: "s1 = sm \<and> r = map_sum id Some rm \<and>
        it1 = (case rm of Inl e \<Rightarrow> finished it | Inr v \<Rightarrow> it\<lparr>it_buf := rest\<rparr>)"
      by (cases rm) (auto simp: lazy_next.simps[of k E it s])
    from run_t Cons m' have b: "t1 = tm \<and> r' = map_sum id Some rm' \<and>
        it1' = (case rm' of Inl e \<Rightarrow> finished it | Inr v \<Rightarrow> it\<lparr>it_buf := rest\<rparr>)"
      by (cases rm') (auto simp: lazy_next.simps[of k' E it t])
    from a nb have "rm \<noteq> Inl BadReference" by auto
    from mapper_two[OF m m' g this] have c: "map_sum id (\<lambda>v. ()) rm' = map_sum id (\<lambda>v. ()) rm" .
    from mapper_grows[OF m] mapper_grows[OF m'] a b have "log s1 = log s @ [] \<and> log t1 = log t @ []"
      by simp
    moreover from a b c have "it1' = it1 \<and> map_sum id (\<lambda>v. v = None) r' = map_sum id (\<lambda>v. v = None) r"
      by (cases rm; cases rm') auto
    ultimately show ?thesis by blast
  next
    case Nil
    show ?thesis
    proof (cases "it_fetcher it")
      case None
      with run_s run_t Nil have "s1 = s \<and> t1 = t \<and> r = Inr None \<and> r' = Inr None \<and> it1 = it \<and> it1' = it"
        by (simp add: lazy_next.simps[of k E it s] lazy_next.simps[of k' E it t])
      thus ?thesis by simp
    next
      case (Some url)
      show ?thesis
      proof (cases k)
        case 0
        with run_s Nil Some show ?thesis by (simp add: lazy_next.simps[of k E it s])
      next
        case (Suc j)
        obtain j' where k': "k' = Suc j'"
          using run_t Nil Some by (cases k') (simp_all add: lazy_next.simps[of k' E it t])
        obtain rf sf where f: "fetcher E (it_rel it) (it_owner it) url s = (rf, sf)"
          by (cases "fetcher E (it_rel it) (it_owner it) url s")
        obtain rf' tf where f': "fetcher E (it_rel it) (it_owner it) url t = (rf', tf)"
          by (cases "fetcher E (it_rel it) (it_owner it) url t")
        have nbf: "rf \<noteq> Inl BadReference"
          using run_s Nil Some Suc f nb by (auto simp: lazy_next.simps[of k E it s])
        from fetcher_two[OF f f' g st nbf] obtain rq where
          eq: "rf' = rf" and gf: "grows sf tf" and ls: "log sf = log s @ [rq]" and lt: "log tf = log t @ [rq]"
          by blast
        show ?thesis
        proof (cases rf)
          case (Inl e)
          with run_s run_t Nil Some Suc k' f f' eq
          have "s1 = sf \<and> t1 = tf \<and> r = Inl e \<and> r' = Inl e \<and> it1 = finished it \<and> it1' = finished it"
            by (simp add: lazy_next.simps[of k E it s] lazy_next.simps[of k' E it t])
          with ls lt show ?thesis by simp
        next
          case (Inr df)
          obtain d fn where df: "df = (d, fn)" by (cases df)
          show ?thesis
          proof (cases "py_iter d")
            case (Inl e)
            with run_s run_t Nil Some Suc k' f f' eq Inr df
            have "s1 = sf \<and> t1 = tf \<and> r = Inl e \<and> r' = Inl e \<and> it1 = finished it \<and> it1' = finished it"
              by (simp add: lazy_next.simps[of k E it s] lazy_next.simps[of k' E it t])
            with ls lt show ?thesis by simp
          next
            case (Inr items)
            from run_s Nil Some Suc f \<open>rf = Inr df\<close> df Inr
            have rec: "lazy_next j E (it\<lparr>it_fetcher := fn, it_buf := items\<rparr>) sf = Some (r, it1, s1)"
              by (simp add: lazy_next.simps[of k E it s])
            from run_t Nil Some k' f' eq \<open>rf = Inr df\<close> df Inr
            have rec': "lazy_next j' E (it\<lparr>it_fetcher := fn, it_buf := items\<rparr>) tf = Some (r', it1', t1)"
              by (simp add: lazy_next.simps[of k' E it t])
            from "1.IH"[OF Nil Some Suc f[symmetric] \<open>rf = Inr df\<close> df[symmetric] Inr rec rec' gf nb st]
            obtain xs where i: "it1' = it1" and l1: "log s1 = log sf @ xs" and l2: "log t1 = log tf @ xs"
              and o: "map_sum id (\<lambda>v. v = None) r' = map_sum id (\<lambda>v. v = None) r"
              by blast
            from l1 l2 ls lt have "log s1 = log s @ (rq # xs) \<and> log t1 = log t @ (rq # xs)" by simp
            with i o show ?thesis by blast
          qed
        qed
      qed
    qed
  qed
qed

lemma lazy_all_SucE:
  assumes "lazy_all (Suc k) E it s = Some (r, sF)"
  obtains e it1 where "lazy_next (Suc k) E it s = Some (Inl e, it1, sF)" "r = Inl e"
        | it1 where "lazy_next (Suc k) E it s = Some (Inr None, it1, sF)" "r = Inr []"
        | v it1 s1 r2 where "lazy_next (Suc k) E it s = Some (Inr (Some v), it1, s1)"
                            "lazy_all k E it1 s1 = Some (r2, sF)" "r = map_sum id (Cons v) r2"
  using assms
  by (auto simp del: lazy_next.simps split: option.splits sum.splits prod.splits)

lemma lazy_all_grows:
  "lazy_all k E it s = Some (r, sF) \<Longrightarrow> grows s sF"
proof (induction k arbitrary: it s r)
  case 0
  thus ?case by simp
next
  case (Suc k)
  from Suc.prems show ?case
  proof (cases rule: lazy_all_SucE)
    case (1 e it1)
    from lazy_next_Some_grows[OF 1(1)] show ?thesis .
  next
    case (2 it1)
    from lazy_next_Some_grows[OF 2(1)] show ?thesis .
  next
    case (3 v it1 s1 r2)
    from lazy_next_Some_grows[OF 3(1)] Suc.IH[OF 3(2)] show ?thesis by (rule grows_trans)
  qed
qed

lemma lazy_all_two:
  "lazy_all k E it s = Some (r, sF) \<Longrightarrow> lazy_all k' E it t = Some (r', tF) \<Longrightarrow>
   grows sF t \<Longrightarrow> r \<noteq> Inl BadReference \<Longrightarrow> \<forall>h h'. server E h = server E h' \<Longrightarrow>
   (\<exists>xs. log sF = log s @ xs \<and> log tF = log t @ xs) \<and> map_sum id length r' = map_sum id length r"
proof (induction k arbitrary: k' it s t r r')
  case 0
  thus ?case by simp
next
  case (Suc k)
  note run_s = Suc.prems(1) and run_t = Suc.prems(2) and g = Suc.prems(3) and nb = Suc.prems(4)
    and st = Suc.prems(5)
  obtain j where k': "k' = Suc j" using run_t by (cases k') simp_all
  note run_t' = run_t[unfolded k']
  have gs: "grows s t" by (rule grows_trans[OF lazy_all_grows[OF run_s] g])
  from run_s show ?case
  proof (cases rule: lazy_all_SucE)
    case (1 e it1)
    with nb have nbe: "Inl e \<noteq> (Inl BadReference :: error + pyval option)" by simp
    from run_t' show ?thesis
    proof (cases rule: lazy_all_SucE)
      case (1 e' it1')
      from lazy_next_two[OF \<open>lazy_next (Suc k) E it s = Some (Inl e, it1, sF)\<close> 1(1) gs nbe st]
        \<open>r = Inl e\<close> 1(2)
      show ?thesis by auto
    next
      case (2 it1')
      from lazy_next_two[OF \<open>lazy_next (Suc k) E it s = Some (Inl e, it1, sF)\<close> 2(1) gs nbe st]
      show ?thesis by simp
    next
      case (3 v' it1' t1 r2')
      from lazy_next_two[OF \<open>lazy_next (Suc k) E it s = Some (Inl e, it1, sF)\<close> 3(1) gs nbe st]
      show ?thesis by simp
    qed
  next
    case (2 it1)
    have nbe: "Inr None \<noteq> (Inl BadReference :: error + pyval option)" by simp
    from run_t' show ?thesis
    proof (cases rule: lazy_all_SucE)
      case (1 e' it1')
      from lazy_next_two[OF \<open>lazy_next (Suc k) E it s = Some (Inr None, it1, sF)\<close> 1(1) gs nbe st]
      show ?thesis by simp
    next
      case (2 it1')
      from lazy_next_two[OF \<open>lazy_next (Suc k) E it s = Some (Inr None, it1, sF)\<close> 2(1) gs nbe st]
        \<open>r = Inr []\<close> 2(2)
      show ?thesis by auto
    next
      case (3 v' it1' t1 r2')
      from lazy_next_two[OF \<open>lazy_next (Suc k) E it s = Some (Inr None, it1, sF)\<close> 3(1) gs nbe st]
      show ?thesis by simp
    qed
  next
    case (3 v it1 s1 r2)
    have nbe: "Inr (Some v) \<noteq> (Inl BadReference :: error + pyval option)" by simp
    from 3(3) nb have nb2: "r2 \<noteq> Inl BadReference" by auto
    from run_t' show ?thesis
    proof (cases rule: lazy_all_SucE)
      case (1 e' it1')
      from lazy_next_two[OF 3(1) 1(1) gs nbe st]
      show ?thesis by simp
    next
      case (2 it1')
      from lazy_next_two[OF 3(1) 2(1) gs nbe st]
      show ?thesis by simp
    next
      case (3 v' it1' t1 r2')
      from lazy_next_two[OF \<open>lazy_next (Suc k) E it s = Some (Inr (Some v), it1, s1)\<close> 3(1) gs nbe st]
      obtain xs where i: "it1' = it1" and l1: "log s1 = log s @ xs" and l2: "log t1 = log t @ xs"
        by blast
      have g1: "grows sF t1" by (rule grows_trans[OF g lazy_next_Some_grows[OF 3(1)]])
      from Suc.IH[OF \<open>lazy_all k E it1 s1 = Some (r2, sF)\<close> 3(2)[unfolded i] g1 nb2 st]
      obtain ys where m1: "log sF = log s1 @ ys" and m2: "log tF = log t1 @ ys"
        and o: "map_sum id length r2' = map_sum id length r2"
        by blast
      from l1 l2 m1 m2 have "log sF = log s @ (xs @ ys) \<and> log tF = log t @ (xs @ ys)" by simp
      moreover from o \<open>r = map_sum id (Cons v) r2\<close> 3(3)
      have "map_sum id length r' = map_sum id length r" by (cases r2; cases r2') auto
      ultimately show ?thesis by blast
    qed
  qed
qed

lemma lazy_next_first_request:
  assumes run: "lazy_next k E it s = Some (r, it1, s1)"
      and buf: "it_buf it = []" and f: "it_fetcher it = Some url"
      and nb: "r \<noteq> Inl BadReference"
      and st: "\<forall>h h'. server E h = server E h'"
  shows "\<exists>xs. log s1 = log s @ Request (m_model (it_rel it)) ''GET'' url
                  (instance_auth (classes E) (insts s ! it_owner it)) None False # xs"
proof -
  let ?rq = "Request (m_model (it_rel it)) ''GET'' url
                  (instance_auth (classes E) (insts s ! it_owner it)) None False"
  obtain j where k: "k = Suc j" using run buf f by (cases k) (simp_all add: lazy_next.simps[of k E it s])
  obtain rf sf where fe: "fetcher E (it_rel it) (it_owner it) url s = (rf, sf)"
    by (cases "fetcher E (it_rel it) (it_owner it) url s")
  have nbf: "rf \<noteq> Inl BadReference"
    using run buf f k fe nb by (auto simp: lazy_next.simps[of k E it s])
  with fetcher_cases[OF fe] have ls: "log sf = log s @ [?rq]" by auto
  show ?thesis
  proof (cases rf)
    case (Inl e)
    with run buf f k fe have "s1 = sf" by (simp add: lazy_next.simps[of k E it s])
    with ls show ?thesis by simp
  next
    case (Inr df)
    obtain d fn where df: "df = (d, fn)" by (cases df)
    show ?thesis
    proof (cases "py_iter d")
      case (Inl e)
      with run buf f k fe Inr df have "s1 = sf" by (simp add: lazy_next.simps[of k E it s])
      with ls show ?thesis by simp
    next
      case (Inr items)
      from run buf f k fe \<open>rf = Inr df\<close> df Inr
      have rec: "lazy_next j E (it\<lparr>it_fetcher := fn, it_buf := items\<rparr>) sf = Some (r, it1, s1)"
        by (simp add: lazy_next.simps[of k E it s])
      from lazy_next_two[OF rec rec grows_refl nb st] obtain xs where "log s1 = log sf @ xs" by blast
      with ls show ?thesis by simp
    qed
  qed
qed

lemma lazy_all_log:
  "lazy_all k E it s = Some (r, sF) \<Longrightarrow> r \<noteq> Inl BadReference \<Longrightarrow>
   \<forall>h h'. server E h = server E h' \<Longrightarrow> \<exists>xs. log sF = log s @ xs"
proof (induction k arbitrary: it s r)
  case 0
  thus ?case by simp
next
  case (Suc k)
  note nb = Suc.prems(2) and st = Suc.prems(3)
  from Suc.prems(1) show ?case
  proof (cases rule: lazy_all_SucE)
    case (1 e it1)
    with nb have "Inl e \<noteq> (Inl BadReference :: error + pyval option)" by simp
    from lazy_next_two[OF 1(1) 1(1) grows_refl this st] show ?thesis by blast
  next
    case (2 it1)
    have "Inr None \<noteq> (Inl BadReference :: error + pyval option)" by simp
    from lazy_next_two[OF 2(1) 2(1) grows_refl this st] show ?thesis by blast
  next
    case (3 v it1 s1 r2)
    have "Inr (Some v) \<noteq> (Inl BadReference :: error + pyval option)" by simp
    from lazy_next_two[OF 3(1) 3(1) grows_refl this st] obtain xs where a: "log s1 = log s @ xs"
      by blast
    from 3(3) nb have "r2 \<noteq> Inl BadReference" by auto
    from Suc.IH[OF 3(2) this st] obtain ys where "log sF = log s1 @ ys" by blast
    with a show ?thesis by simp
  qed
qed

lemma lazy_all_first_request:
  assumes run: "lazy_all k E it s = Some (r, sF)"
      and buf: "it_buf it = []" and f: "it_fetcher it = Some url"
      and nb: "r \<noteq> Inl BadReference"
      and st: "\<forall>h h'. server E h = server E h'"
  shows "\<exists>xs. log sF = log s @ Request (m_model (it_rel it)) ''GET'' url
                  (instance_auth (classes E) (insts s ! it_owner it)) None False # xs"
proof -
  obtain j where k: "k = Suc j" using run by (cases k) simp_all
  from run[unfolded k] show ?thesis
  proof (cases rule: lazy_all_SucE)
    case (1 e it1)
    with nb have "Inl e \<noteq> (Inl BadReference :: error + pyval option)" by simp
    from lazy_next_first_request[OF 1(1) buf f this st] show ?thesis .
  next
    case (2 it1)
    have "Inr None \<noteq> (Inl BadReference :: error + pyval option)" by simp
    from lazy_next_first_request[OF 2(1) buf f this st] show ?thesis .
  next
    case (3 v it1 s1 r2)
    have "Inr (Some v) \<noteq> (Inl BadReference :: error + pyval option)" by simp
    from lazy_next_first_request[OF 3(1) buf f this st] obtain xs where
      a: "log s1 = log s @ Request (m_model (it_rel it)) ''GET'' url
                  (instance_auth (classes E) (insts s ! it_owner it)) None False # xs" by blast
    from 3(3) nb have nb2: "r2 \<noteq> Inl BadReference" by auto
    from lazy_all_log[OF 3(2) nb2 st] obtain ys where "log sF = log s1 @ ys" by blast
    with a show ?thesis by simp
  qed
qed

text \<open>
  C6. Let the server's answer to a request not depend on the requests made before. When a
  lazy collection is iterated to its end or to an exception, and then iterated again from
  the state the first iteration left, the second iteration issues the same sequence of
  requests as the first, it ends the same way (the same exception, or as many items), and
  the sequence starts with the request for the collection's own URL with the owner's
  credentials. And a step of any iteration taken in between changes nothing of what
  another iteration does next: \<^verbatim>\<open>next\<close> on it issues the same requests, ends the same way
  and leaves its generator with the same pending fetcher and the same rest of the page.
  (The first run is one of a Python state: it does not follow an address that denotes no
  object. Each run is one that returns within its bound.)
\<close>

theorem lazy_iterations_independent:
  assumes st: "\<forall>h h'. server E h = server E h'"
  shows
  "(lazy_all k E (lazy_iter_new l) s = Some (r1, s1) \<and>
    lazy_all k' E (lazy_iter_new l) s1 = Some (r2, s2) \<and> r1 \<noteq> Inl BadReference \<longrightarrow>
      (\<exists>xs. log s1 = log s @ xs \<and> log s2 = log s1 @ xs \<and> xs \<noteq> [] \<and>
            hd xs = Request (m_model (l_rel l)) ''GET'' (l_url l)
                      (instance_auth (classes E) (insts s ! l_owner l)) None False) \<and>
      map_sum id length r2 = map_sum id length r1) \<and>
   (lazy_next kb E itb s = Some (rb, itb', t) \<and>
    lazy_next ka E ita s = Some (ra, ita1, sa) \<and>
    lazy_next ka' E ita t = Some (ra', ita2, ta) \<and> ra \<noteq> Inl BadReference \<longrightarrow>
      ita2 = ita1 \<and> (\<exists>xs. log sa = log s @ xs \<and> log ta = log t @ xs) \<and>
      map_sum id (\<lambda>v. v = None) ra' = map_sum id (\<lambda>v. v = None) ra)"
proof -
  have 1: "lazy_all k E (lazy_iter_new l) s = Some (r1, s1) \<and>
    lazy_all k' E (lazy_iter_new l) s1 = Some (r2, s2) \<and> r1 \<noteq> Inl BadReference \<longrightarrow>
      (\<exists>xs. log s1 = log s @ xs \<and> log s2 = log s1 @ xs \<and> xs \<noteq> [] \<and>
            hd xs = Request (m_model (l_rel l)) ''GET'' (l_url l)
                      (instance_auth (classes E) (insts s ! l_owner l)) None False) \<and>
      map_sum id length r2 = map_sum id length r1"
  proof (intro impI, elim conjE)
    assume a: "lazy_all k E (lazy_iter_new l) s = Some (r1, s1)"
       and b: "lazy_all k' E (lazy_iter_new l) s1 = Some (r2, s2)"
       and nb: "r1 \<noteq> Inl BadReference"
    from lazy_all_two[OF a b grows_refl nb st] obtain xs where
      x: "log s1 = log s @ xs" "log s2 = log s1 @ xs"
      and o: "map_sum id length r2 = map_sum id length r1" by blast
    have "it_buf (lazy_iter_new l) = []" "it_fetcher (lazy_iter_new l) = Some (l_url l)"
      by (simp_all add: lazy_iter_new_def)
    from lazy_all_first_request[OF a this nb st] obtain ys where
      "log s1 = log s @ Request (m_model (l_rel l)) ''GET'' (l_url l)
                  (instance_auth (classes E) (insts s ! l_owner l)) None False # ys"
      by (auto simp: lazy_iter_new_def)
    with x(1) have "xs \<noteq> [] \<and> hd xs = Request (m_model (l_rel l)) ''GET'' (l_url l)
                      (instance_auth (classes E) (insts s ! l_owner l)) None False"
      by auto
    with x o show "(\<exists>xs. log s1 = log s @ xs \<and> log s2 = log s1 @ xs \<and> xs \<noteq> [] \<and>
            hd xs = Request (m_model (l_rel l)) ''GET'' (l_url l)
                      (instance_auth (classes E) (insts s ! l_owner l)) None False) \<and>
      map_sum id length r2 = map_sum id length r1" by blast
  qed
  have 2: "lazy_next kb E itb s = Some (rb, itb', t) \<and>
    lazy_next ka E ita s = Some (ra, ita1, sa) \<and>
    lazy_next ka' E ita t = Some (ra', ita2, ta) \<and> ra \<noteq> Inl BadReference \<longrightarrow>
      ita2 = ita1 \<and> (\<exists>xs. log sa = log s @ xs \<and> log ta = log t @ xs) \<and>
      map_sum id (\<lambda>v. v = None) ra' = map_sum id (\<lambda>v. v = None) ra"
  proof (intro impI, elim conjE)
    assume b: "lazy_next kb E itb s = Some (rb, itb', t)"
       and a: "lazy_next ka E ita s = Some (ra, ita1, sa)"
       and a': "lazy_next ka' E ita t = Some (ra', ita2, ta)"
       and nb: "ra \<noteq> Inl BadReference"
    from lazy_next_two[OF a a' lazy_next_Some_grows[OF b] nb st]
    show "ita2 = ita1 \<and> (\<exists>xs. log sa = log s @ xs \<and> log ta = log t @ xs) \<and>
      map_sum id (\<lambda>v. v = None) ra' = map_sum id (\<lambda>v. v = None) ra" .
  qed
  show ?thesis by (rule conjI[OF 1 2])
qed

theorem lazy_iterations_independent_witness:
  "(\<forall>h h'. server page_env h = server page_env h') \<and>
   (\<exists>s1 s2 xs.
      lazy_all 4 page_env (lazy_iter_new commits_lazy) repo_state =
        Some (Inr [PObj 2, PObj 3, PObj 4], s1) \<and>
      lazy_all 4 page_env (lazy_iter_new commits_lazy) s1 =
        Some (Inr [PObj 5, PObj 6, PObj 7], s2) \<and>
      log s1 = log repo_state @ xs \<and> log s2 = log s1 @ xs \<and>
      map r_url xs = [PStr ''/repos/pyresto/commits'', PStr ''/repos/pyresto/commits?page=2'']) \<and>
   (\<exists>itb t it1 sa ta.
      lazy_next 1 page_env (lazy_iter_new commits_lazy) repo_state = Some (Inr (Some (PObj 2)), itb, t) \<and>
      lazy_next 1 page_env (lazy_iter_new commits_lazy) repo_state = Some (Inr (Some (PObj 2)), it1, sa) \<and>
      lazy_next 1 page_env (lazy_iter_new commits_lazy) t = Some (Inr (Some (PObj 3)), it1, ta) \<and>
      it_fetcher it1 = Some (PStr ''/repos/pyresto/commits?page=2'') \<and>
      it_buf it1 = [PDict [(''sha'', PStr ''b'')]])"
proof -
  let ?it = "lazy_iter_new commits_lazy"
  let ?S1 = "snd (the (lazy_all 4 page_env ?it repo_state))"
  let ?S2 = "snd (the (lazy_all 4 page_env ?it ?S1))"
  let ?n = "the (lazy_next 1 page_env ?it repo_state)"
  let ?T = "snd (snd ?n)"
  let ?I = "fst (snd ?n)"
  let ?n' = "the (lazy_next 1 page_env ?it ?T)"
  have st: "\<forall>h h'. server page_env h = server page_env h'"
    by (simp add: page_env_def)
  have "map_option fst (lazy_all 4 page_env ?it repo_state) = Some (Inr [PObj 2, PObj 3, PObj 4])"
    by code_simp
  hence a: "lazy_all 4 page_env ?it repo_state = Some (Inr [PObj 2, PObj 3, PObj 4], ?S1)"
    by (cases "lazy_all 4 page_env ?it repo_state") auto
  have "map_option fst (lazy_all 4 page_env ?it ?S1) = Some (Inr [PObj 5, PObj 6, PObj 7])"
    by code_simp
  hence b: "lazy_all 4 page_env ?it ?S1 = Some (Inr [PObj 5, PObj 6, PObj 7], ?S2)"
    by (cases "lazy_all 4 page_env ?it ?S1") auto
  have u: "map r_url (log ?S1) = [PStr ''/repos/pyresto/commits'', PStr ''/repos/pyresto/commits?page=2'']"
    by code_simp
  have l0: "log repo_state = []" by (simp add: repo_state_def)
  have "map_option fst (lazy_next 1 page_env ?it repo_state) = Some (Inr (Some (PObj 2)))"
    by code_simp
  hence c: "lazy_next 1 page_env ?it repo_state = Some (Inr (Some (PObj 2)), ?I, ?T)"
    by (cases "lazy_next 1 page_env ?it repo_state") (auto simp del: lazy_next.simps)
  have "map_option fst (lazy_next 1 page_env ?it ?T) = Some (Inr (Some (PObj 3)))"
    by code_simp
  hence d: "lazy_next 1 page_env ?it ?T = Some (Inr (Some (PObj 3)), fst (snd ?n'), snd (snd ?n'))"
    by (cases "lazy_next 1 page_env ?it ?T") (auto simp del: lazy_next.simps)
  have f: "it_fetcher ?I = Some (PStr ''/repos/pyresto/commits?page=2'')"
    by code_simp
  have g: "it_buf ?I = [PDict [(''sha'', PStr ''b'')]]"
    by code_simp
  note th = lazy_iterations_independent[OF st, where k = 4 and k' = 4 and l = commits_lazy
      and s = repo_state and ?r1.0 = "Inr [PObj 2, PObj 3, PObj 4]" and ?s1.0 = ?S1
      and ?r2.0 = "Inr [PObj 5, PObj 6, PObj 7]" and ?s2.0 = ?S2
      and kb = 1 and itb = ?it and rb = "Inr (Some (PObj 2))" and itb' = ?I and t = ?T
      and ka = 1 and ita = ?it and ra = "Inr (Some (PObj 2))" and ?ita1.0 = ?I and sa = ?T
      and ka' = 1 and ra' = "Inr (Some (PObj 3))" and ?ita2.0 = "fst (snd ?n')" and ta = "snd (snd ?n')"]
  from th a b obtain xs where x: "log ?S1 = log repo_state @ xs" "log ?S2 = log ?S1 @ xs"
    by auto
  from x(1) l0 u have m: "map r_url xs = [PStr ''/repos/pyresto/commits'', PStr ''/repos/pyresto/commits?page=2'']"
    by simp
  from th c d have i: "fst (snd ?n') = ?I" by auto
  have A: "\<exists>s1 s2 xs.
      lazy_all 4 page_env (lazy_iter_new commits_lazy) repo_state =
        Some (Inr [PObj 2, PObj 3, PObj 4], s1) \<and>
      lazy_all 4 page_env (lazy_iter_new commits_lazy) s1 =
        Some (Inr [PObj 5, PObj 6, PObj 7], s2) \<and>
      log s1 = log repo_state @ xs \<and> log s2 = log s1 @ xs \<and>
      map r_url xs = [PStr ''/repos/pyresto/commits'', PStr ''/repos/pyresto/commits?page=2'']"
    apply (rule exI[of _ ?S1], rule exI[of _ ?S2], rule exI[of _ xs])
    apply (intro conjI)
    apply (rule a, rule b, rule x(1), rule x(2), rule m)
    done
  note d' = d[unfolded i]
  have B: "\<exists>itb t it1 sa ta.
      lazy_next 1 page_env (lazy_iter_new commits_lazy) repo_state = Some (Inr (Some (PObj 2)), itb, t) \<and>
      lazy_next 1 page_env (lazy_iter_new commits_lazy) repo_state = Some (Inr (Some (PObj 2)), it1, sa) \<and>
      lazy_next 1 page_env (lazy_iter_new commits_lazy) t = Some (Inr (Some (PObj 3)), it1, ta) \<and>
      it_fetcher it1 = Some (PStr ''/repos/pyresto/commits?page=2'') \<and>
      it_buf it1 = [PDict [(''sha'', PStr ''b'')]]"
    apply (rule exI[of _ ?I], rule exI[of _ ?T], rule exI[of _ ?I], rule exI[of _ ?T])
    apply (rule exI[of _ "snd (snd ?n')"])
    apply (intro conjI)
    apply (rule c, rule c, rule d', rule f, rule g)
    done
  show ?thesis by (rule conjI[OF st conjI[OF A B]])
qed

subsection \<open>Authentication\<close>

text \<open>
  C3. The claim: with no call-site \<^verbatim>\<open>auth\<close>, an update or delete attaches the
  instance-level override, else the type-level default. The code evaluates
  \<^verbatim>\<open>cls._auth or instance._auth\<close>: a class default that is true wins over the instance's
  own value. Here \<^verbatim>\<open>Item.delete(it)\<close> runs for an instance whose own \<^verbatim>\<open>_auth\<close> is
  \<open>POpaque 2\<close> under the class default \<open>POpaque 1\<close>; the one request sent carries the
  class default.
\<close>

theorem delete_attaches_class_default_over_instance_auth:
  "i_auth (insts item_state ! 0) = Some (POpaque 2) \<and>
   fst (delete silent_env 5 ''Item'' 0 None item_state) = Inr True \<and>
   map r_auth (log (snd (delete silent_env 5 ''Item'' 0 None item_state))) = [POpaque 1]"
  by code_simp

end
